theory Spec2Isabelle
  imports Main "HOL-Library.AList"
begin

section \<open>Values of the JavaScript run time\<close>

text \<open>
  The handlers of \<^verbatim>\<open>devdonalds.ts\<close> read request bodies that \<^verbatim>\<open>express.json()\<close> has
  parsed. A parsed value is \<open>json\<close>; a property that is absent reads as \<^verbatim>\<open>undefined\<close>,
  which is \<open>None\<close> of \<open>json option\<close>. Numbers are modelled as \<open>int\<close>: the data model
  of the cookbook is integral (cook times and quantities), and on integers below
  \<open>2 ^ 53\<close> the arithmetic of JavaScript's doubles is the arithmetic of \<open>int\<close>.
  The code itself stores and multiplies doubles: a number with a fraction is not a
  value of this model, and beyond \<open>2 ^ 53\<close> a sum or product of the code is rounded
  where the one of the model is exact. What is proved below about the numbers of a
  summary is therefore about cookbooks of integers whose products and sums stay
  below \<open>2 ^ 53\<close>; the control flow of the handlers (which check passes, what is
  stored, which error is thrown) does not depend on that arithmetic.
  An object is the list of its own properties, the first binding of a key being the
  property's value.
\<close>

datatype json =
    JNull
  | JBool bool
  | JNum int
  | JStr string
  | JArr "json list"
  | JObj "(string \<times> json) list"

fun typeof :: "json option \<Rightarrow> string" where
  "typeof None = ''undefined''"
| "typeof (Some JNull) = ''object''"
| "typeof (Some (JBool b)) = ''boolean''"
| "typeof (Some (JNum n)) = ''number''"
| "typeof (Some (JStr s)) = ''string''"
| "typeof (Some (JArr xs)) = ''object''"
| "typeof (Some (JObj kvs)) = ''object''"

text \<open>\<open>truthy v\<close> is the outcome of \<^verbatim>\<open>!!v\<close>.\<close>

fun truthy :: "json option \<Rightarrow> bool" where
  "truthy None = False"
| "truthy (Some JNull) = False"
| "truthy (Some (JBool b)) = b"
| "truthy (Some (JNum n)) = (n \<noteq> 0)"
| "truthy (Some (JStr s)) = (s \<noteq> [])"
| "truthy (Some (JArr xs)) = True"
| "truthy (Some (JObj kvs)) = True"

text \<open>
  \<open>get_prop v k\<close> is \<^verbatim>\<open>v.k\<close> for a value \<open>v\<close> other than \<^verbatim>\<open>null\<close>, and for the four keys
  the program reads (\<^verbatim>\<open>name\<close>, \<^verbatim>\<open>quantity\<close>, \<^verbatim>\<open>type\<close>, \<^verbatim>\<open>cookTime\<close>), none of which
  a prototype of a parsed value defines. Reading a property of \<^verbatim>\<open>null\<close> throws a
  TypeError; the callers below test for \<open>JNull\<close> before they use \<open>get_prop\<close>.
\<close>

fun get_prop :: "json \<Rightarrow> string \<Rightarrow> json option" where
  "get_prop (JObj kvs) k = map_of kvs k"
| "get_prop v k = None"

text \<open>
  \<^verbatim>\<open>new Set(xs).size\<close>: a \<^verbatim>\<open>Set\<close> compares with SameValueZero, under which two
  primitives are the same when they are equal and two parsed objects or arrays
  (each a fresh reference) never are.
\<close>

fun primitive :: "json option \<Rightarrow> bool" where
  "primitive (Some (JArr xs)) = False"
| "primitive (Some (JObj kvs)) = False"
| "primitive v = True"

definition same_value_zero :: "json option \<Rightarrow> json option \<Rightarrow> bool" where
  "same_value_zero a b = (primitive a \<and> a = b)"

fun Set_size :: "json option list \<Rightarrow> nat" where
  "Set_size [] = 0"
| "Set_size (x # xs) =
     (if list_ex (same_value_zero x) xs then Set_size xs else Suc (Set_size xs))"

text \<open>What a handler or a function throws.\<close>

datatype thrown =
    TypeError
  | RangeError
  | Missing_item string
  | Invalid_type string string
  | Undefined_cookTime

text \<open>The text of the two \<^verbatim>\<open>new Error(...)\<close> of \<^verbatim>\<open>gatherRecipeData\<close>.\<close>

definition quoted :: "string \<Rightarrow> string" where
  "quoted s = [CHR 0x22] @ s @ [CHR 0x22]"

fun message :: "thrown \<Rightarrow> string" where
  "message (Missing_item n) = ''Missing item '' @ quoted n"
| "message (Invalid_type t n) = ''Invalid type '' @ quoted t @ '' for '' @ quoted n"
| "message e = []"

section \<open>The cookbook\<close>

text \<open>
  \<^verbatim>\<open>interface requiredItem { name: string; quantity: number }\<close>, and the two
  interfaces that extend \<^verbatim>\<open>cookbookEntry { name: string; type: string }\<close>:
  an \<^verbatim>\<open>ingredient\<close> adds \<^verbatim>\<open>cookTime\<close>, a \<^verbatim>\<open>recipe\<close> adds \<^verbatim>\<open>requiredItems\<close>.
  The tag \<open>type\<close> is a string of its own, as in the source: which strings a stored
  entry carries is a property of the program, proved below.
\<close>

datatype requiredItem = RequiredItem (name: string) (quantity: int)

datatype entry =
    Ingredient (name: string) (type: string) int
  | Recipe (name: string) (type: string) "requiredItem list"

text \<open>\<^verbatim>\<open>let inMemoryCookbook: (recipe | ingredient)[] = []\<close>\<close>

type_synonym cookbook = "entry list"

text \<open>
  What a handler answers: \<^verbatim>\<open>res.status(n).send()\<close>, \<^verbatim>\<open>res.status(n).send(text)\<close>,
  the two \<^verbatim>\<open>res.json\<close>, or an exception that leaves the handler, which Express
  turns into its own error response (status 500).
\<close>

datatype jsval = Num int | Str string

datatype response =
    Status nat
  | Status_text nat string
  | Json_msg string
  | Json_summary string int "(string \<times> jsval) list"
  | Uncaught thrown

section \<open>Task 2: \<^verbatim>\<open>POST /entry\<close>\<close>

text \<open>
  The guard of the loop over \<^verbatim>\<open>entry.requiredItems\<close> (lines 128 to 137): \<open>None\<close> when
  the guard answers 400, otherwise the element as the \<^verbatim>\<open>requiredItem\<close> it is stored as.
\<close>

definition check_item :: "json \<Rightarrow> requiredItem option" where
  "check_item item =
     (if \<not> truthy (Some item) \<or> typeof (get_prop item ''name'') \<noteq> ''string''
         \<or> typeof (get_prop item ''quantity'') \<noteq> ''number''
      then None
      else (case (get_prop item ''name'', get_prop item ''quantity'') of
              (Some (JStr n), Some (JNum q)) \<Rightarrow>
                 if q < 1 then None else Some (RequiredItem n q)
            | _ \<Rightarrow> None))"

fun check_items :: "json list \<Rightarrow> requiredItem list option" where
  "check_items [] = Some []"
| "check_items (item # rest) =
     (case check_item item of
        None \<Rightarrow> None
      | Some r \<Rightarrow> (case check_items rest of None \<Rightarrow> None | Some rs \<Rightarrow> Some (r # rs)))"

text \<open>
  The body is the list of the own properties of \<^verbatim>\<open>req.body\<close>: \<^verbatim>\<open>express.json()\<close>
  in its default strict mode hands over an object or an array, and an array has none
  of the properties read here. The result is the response and the cookbook afterwards.
  Line 122 reads \<^verbatim>\<open>item.name\<close> of every element before the loop of line 128 looks at
  \<^verbatim>\<open>!item\<close>; on a \<^verbatim>\<open>null\<close> element the read throws.
\<close>

definition postEntry :: "cookbook \<Rightarrow> (string \<times> json) list \<Rightarrow> response \<times> cookbook" where
  "postEntry inMemoryCookbook entry =
     (if map_of entry ''type'' \<noteq> Some (JStr ''recipe'')
         \<and> map_of entry ''type'' \<noteq> Some (JStr ''ingredient'')
      then (Status 400, inMemoryCookbook)
      else if \<not> truthy (map_of entry ''name'') \<or> typeof (map_of entry ''name'') \<noteq> ''string''
      then (Status 400, inMemoryCookbook)
      else (case map_of entry ''name'' of
        Some (JStr entry_name) \<Rightarrow>
          if list_ex (\<lambda>c. name c = entry_name) inMemoryCookbook
          then (Status 400, inMemoryCookbook)
          else if map_of entry ''type'' = Some (JStr ''ingredient'')
          then (case map_of entry ''cookTime'' of
                  Some (JNum cookTime) \<Rightarrow>
                    if cookTime < 0 then (Status 400, inMemoryCookbook)
                    else (Status 200,
                          inMemoryCookbook @ [Ingredient entry_name ''ingredient'' cookTime])
                | _ \<Rightarrow> (Status 400, inMemoryCookbook))
          else if map_of entry ''type'' = Some (JStr ''recipe'')
          then (case map_of entry ''requiredItems'' of
                  Some (JArr items) \<Rightarrow>
                    if list_ex (\<lambda>item. item = JNull) items
                    then (Uncaught TypeError, inMemoryCookbook)
                    else if Set_size (map (\<lambda>item. get_prop item ''name'') items) \<noteq> length items
                    then (Status 400, inMemoryCookbook)
                    else (case check_items items of
                            None \<Rightarrow> (Status 400, inMemoryCookbook)
                          | Some requiredItems \<Rightarrow>
                              (Status 200,
                               inMemoryCookbook @ [Recipe entry_name ''recipe'' requiredItems]))
                | _ \<Rightarrow> (Status 400, inMemoryCookbook))
          else (Status 400, inMemoryCookbook)
      | _ \<Rightarrow> (Status 400, inMemoryCookbook)))"

text \<open>
  The cookbook starts empty and \<^verbatim>\<open>POST /entry\<close> is the only code that writes to it.
\<close>

inductive reachable :: "cookbook \<Rightarrow> bool" where
  initial: "reachable []"
| posted: "reachable c \<Longrightarrow> reachable (snd (postEntry c entry))"

text \<open>
  The requests on which line 122 throws: the body has passed the checks of lines 86
  to 119 (the type is \<^verbatim>\<open>recipe\<close>, the name is a string that is not empty and not
  stored, \<^verbatim>\<open>requiredItems\<close> is an array) and the array holds a \<^verbatim>\<open>null\<close>. A body
  that holds a \<^verbatim>\<open>null\<close> there and fails one of the earlier checks never reaches
  line 122.
\<close>

definition reads_null_item :: "cookbook \<Rightarrow> (string \<times> json) list \<Rightarrow> bool" where
  "reads_null_item inMemoryCookbook entry =
     (map_of entry ''type'' = Some (JStr ''recipe'')
      \<and> truthy (map_of entry ''name'') \<and> typeof (map_of entry ''name'') = ''string''
      \<and> (case map_of entry ''name'' of
           Some (JStr entry_name) \<Rightarrow>
             \<not> list_ex (\<lambda>c. name c = entry_name) inMemoryCookbook
         | _ \<Rightarrow> False)
      \<and> (case map_of entry ''requiredItems'' of
           Some (JArr items) \<Rightarrow> list_ex (\<lambda>item. item = JNull) items
         | _ \<Rightarrow> False))"

section \<open>Task 3: \<^verbatim>\<open>GET /summary\<close>\<close>

subsection \<open>The aggregation object\<close>

text \<open>
  \<^verbatim>\<open>aggregated\<close> is a plain object \<^verbatim>\<open>{}\<close>: its own properties in creation order, and
  behind them the properties of \<^verbatim>\<open>Object.prototype\<close>. \<open>Object_prototype k\<close> is the
  string that \<^verbatim>\<open>{}[k]\<close> converts to under \<^verbatim>\<open>+\<close> when \<^verbatim>\<open>Object.prototype\<close> has a
  property \<open>k\<close> (a built-in function, or the prototype object itself for
  \<^verbatim>\<open>__proto__\<close>), as V8 prints it.
\<close>

definition native :: "string \<Rightarrow> string" where
  "native f = ''function '' @ f @ ''() { [native code] }''"

definition Object_prototype :: "string \<Rightarrow> string option" where
  "Object_prototype k =
     (if k = ''constructor'' then Some (native ''Object'')
      else if k = ''__proto__'' then Some ''[object Object]''
      else if k \<in> set [''__defineGetter__'', ''__defineSetter__'', ''hasOwnProperty'',
                        ''__lookupGetter__'', ''__lookupSetter__'', ''isPrototypeOf'',
                        ''propertyIsEnumerable'', ''toString'', ''valueOf'',
                        ''toLocaleString'']
      then Some (native k)
      else None)"

text \<open>Decimal digits of an integer, as \<^verbatim>\<open>String(n)\<close> gives them below \<open>10 ^ 21\<close>.\<close>

fun show_nat :: "nat \<Rightarrow> string" where
  "show_nat n =
     (if n < 10 then [''0123456789'' ! n]
      else show_nat (n div 10) @ [''0123456789'' ! (n mod 10)])"

declare show_nat.simps [simp del]

definition show_int :: "int \<Rightarrow> string" where
  "show_int i = (if i < 0 then CHR ''-'' # show_nat (nat (- i)) else show_nat (nat i))"

text \<open>
  \<^verbatim>\<open>aggregated[k] = (aggregated[k] || 0) + neededQty\<close>. An own number adds; an own
  non-empty string, or an inherited function or object, is truthy and \<^verbatim>\<open>+\<close>
  concatenates; a write to \<^verbatim>\<open>__proto__\<close> with a primitive is ignored by the
  setter of \<^verbatim>\<open>Object.prototype\<close>.
\<close>

definition add_quantity :: "(string \<times> jsval) list \<Rightarrow> string \<Rightarrow> int \<Rightarrow> (string \<times> jsval) list" where
  "add_quantity aggregated k neededQty =
     (let v = (case map_of aggregated k of
                 Some (Num n) \<Rightarrow> Num (n + neededQty)
               | Some (Str s) \<Rightarrow>
                   if s = [] then Num neededQty else Str (s @ show_int neededQty)
               | None \<Rightarrow>
                   (case Object_prototype k of
                      Some text \<Rightarrow> Str (text @ show_int neededQty)
                    | None \<Rightarrow> Num neededQty))
      in if k = ''__proto__'' then aggregated else AList.update k v aggregated)"

text \<open>
  \<^verbatim>\<open>Object.entries\<close>: the keys that are array indices first, in ascending order,
  then the other keys in creation order.
\<close>

definition decimal :: "string \<Rightarrow> nat" where
  "decimal s = foldl (\<lambda>acc c. 10 * acc + (of_char c - 48)) 0 s"

definition array_index :: "string \<Rightarrow> nat option" where
  "array_index s =
     (if s \<noteq> [] \<and> list_all (\<lambda>c. 48 \<le> (of_char c :: nat) \<and> (of_char c :: nat) \<le> 57) s
         \<and> (s = ''0'' \<or> hd s \<noteq> CHR ''0'') \<and> decimal s < 2 ^ 32 - 1
      then Some (decimal s) else None)"

definition Object_entries :: "(string \<times> jsval) list \<Rightarrow> (string \<times> jsval) list" where
  "Object_entries obj =
     sort_key (\<lambda>(k, v). case array_index k of Some i \<Rightarrow> i | None \<Rightarrow> 0)
        (filter (\<lambda>(k, v). array_index k \<noteq> None) obj)
     @ filter (\<lambda>(k, v). array_index k = None) obj"

subsection \<open>\<^verbatim>\<open>gatherRecipeData\<close>\<close>

text \<open>
  The loop of lines 205 to 231 over the requirement lines still to be processed, with
  the local \<^verbatim>\<open>totalCookTime\<close> and the shared object \<^verbatim>\<open>aggregated\<close> passed along.
  \<open>stack\<close> is the number of further frames of \<^verbatim>\<open>gatherRecipeData\<close> the call stack of
  the engine has room for: the source has no bound of its own, and a call that finds
  no room throws a RangeError.

  The casts \<^verbatim>\<open>as ingredient\<close> and \<^verbatim>\<open>as recipe\<close> follow the tag. On an object that
  carries the tag \<^verbatim>\<open>"recipe"\<close> without \<^verbatim>\<open>requiredItems\<close> the nested loop throws a
  TypeError; on one that carries \<^verbatim>\<open>"ingredient"\<close> without \<^verbatim>\<open>cookTime\<close> the product is
  not a number, which the model reports as \<open>Undefined_cookTime\<close>. No reachable
  cookbook holds such an object (\<open>reachable_shape\<close> below).
\<close>

fun gather_loop ::
  "nat \<Rightarrow> cookbook \<Rightarrow> requiredItem list \<Rightarrow> int \<Rightarrow> (string \<times> jsval) list \<Rightarrow> int
     \<Rightarrow> thrown + int \<times> (string \<times> jsval) list" where
  "gather_loop stack inMemoryCookbook [] multiplier aggregated totalCookTime =
     Inr (totalCookTime, aggregated)"
| "gather_loop stack inMemoryCookbook (reqItem # rest) multiplier aggregated totalCookTime =
     (case find (\<lambda>e. name e = requiredItem.name reqItem) inMemoryCookbook of
        None \<Rightarrow> Inl (Missing_item (requiredItem.name reqItem))
      | Some referenced \<Rightarrow>
          if type referenced = ''ingredient'' then
            (case referenced of
               Ingredient ing_name t cookTime \<Rightarrow>
                 gather_loop stack inMemoryCookbook rest multiplier
                   (add_quantity aggregated ing_name (quantity reqItem * multiplier))
                   (totalCookTime + cookTime * (quantity reqItem * multiplier))
             | Recipe n t items \<Rightarrow> Inl Undefined_cookTime)
          else if type referenced = ''recipe'' then
            (case stack of
               0 \<Rightarrow> Inl RangeError
             | Suc deeper \<Rightarrow>
                 (case referenced of
                    Ingredient n t c \<Rightarrow> Inl TypeError
                  | Recipe n t items \<Rightarrow>
                      (case gather_loop deeper inMemoryCookbook items
                              (quantity reqItem * multiplier) aggregated 0 of
                         Inl err \<Rightarrow> Inl err
                       | Inr (subTotal, aggregated') \<Rightarrow>
                           gather_loop stack inMemoryCookbook rest multiplier aggregated'
                             (totalCookTime + subTotal))))
          else Inl (Invalid_type (type referenced) (name referenced)))"

definition gatherRecipeData ::
  "nat \<Rightarrow> cookbook \<Rightarrow> entry \<Rightarrow> int \<Rightarrow> (string \<times> jsval) list
     \<Rightarrow> thrown + int \<times> (string \<times> jsval) list" where
  "gatherRecipeData stack inMemoryCookbook rec multiplier aggregated =
     (case rec of
        Recipe n t items \<Rightarrow> gather_loop stack inMemoryCookbook items multiplier aggregated 0
      | Ingredient n t c \<Rightarrow> Inl TypeError)"

subsection \<open>The handler\<close>

text \<open>
  \<open>query_name\<close> is \<^verbatim>\<open>req.query.name\<close>: absent, a string, or what the query parser
  builds from repeated or bracketed parameters. Every \<^verbatim>\<open>throw\<close> of
  \<^verbatim>\<open>gatherRecipeData\<close> lands in the \<^verbatim>\<open>catch\<close> of line 184.
\<close>

definition getSummary :: "nat \<Rightarrow> cookbook \<Rightarrow> json option \<Rightarrow> response \<times> cookbook" where
  "getSummary stack inMemoryCookbook query_name =
     (if \<not> truthy query_name \<or> typeof query_name \<noteq> ''string''
      then (Status 400, inMemoryCookbook)
      else (case query_name of
        Some (JStr n) \<Rightarrow>
          (case find (\<lambda>e. name e = n) inMemoryCookbook of
             None \<Rightarrow> (Status 400, inMemoryCookbook)
           | Some entry \<Rightarrow>
               if type entry \<noteq> ''recipe'' then (Status 400, inMemoryCookbook)
               else (case gatherRecipeData stack inMemoryCookbook entry 1 [] of
                       Inl error \<Rightarrow> (Status 400, inMemoryCookbook)
                     | Inr (totalCookTime, aggregatedIngredients) \<Rightarrow>
                         (Json_summary (name entry) totalCookTime
                            (Object_entries aggregatedIngredients),
                          inMemoryCookbook)))
      | _ \<Rightarrow> (Status 400, inMemoryCookbook)))"

section \<open>Task 1: \<^verbatim>\<open>parse_handwriting\<close>\<close>

text \<open>
  A \<open>char\<close> of the input is a UTF-16 code unit below 256. Nothing is lost by that:
  the function maps \<^verbatim>\<open>-\<close> and \<^verbatim>\<open>_\<close> to a space, keeps the letters \<^verbatim>\<open>A-Za-z\<close> and
  the white space \<^verbatim>\<open>\s\<close>, and deletes every other code unit, so a code unit from 256
  on behaves as a space does (when it is white space) or as \<^verbatim>\<open>!\<close> does.
  \<open>is_space\<close> is \<^verbatim>\<open>\s\<close> below 256: tab, line feed, vertical tab, form feed,
  carriage return, space and the no-break space. It is also what \<^verbatim>\<open>trim\<close> removes.
\<close>

definition is_space :: "char \<Rightarrow> bool" where
  "is_space c = (of_char c \<in> {9, 10, 11, 12, 13, 32, 160 :: nat})"

definition is_letter :: "char \<Rightarrow> bool" where
  "is_letter c =
     ((65 \<le> (of_char c :: nat) \<and> (of_char c :: nat) \<le> 90)
      \<or> (97 \<le> (of_char c :: nat) \<and> (of_char c :: nat) \<le> 122))"

definition trim :: "string \<Rightarrow> string" where
  "trim s = rev (dropWhile is_space (rev (dropWhile is_space s)))"

text \<open>\<^verbatim>\<open>replace(/[-_]/g, ' ')\<close>\<close>

definition replace_dashes :: "string \<Rightarrow> string" where
  "replace_dashes s = map (\<lambda>c. if c = CHR ''-'' \<or> c = CHR ''_'' then CHR '' '' else c) s"

text \<open>\<^verbatim>\<open>replace(/[^A-Za-z\s]/g, '')\<close>\<close>

definition remove_others :: "string \<Rightarrow> string" where
  "remove_others s = filter (\<lambda>c. is_letter c \<or> is_space c) s"

text \<open>\<^verbatim>\<open>replace(/\s+/g, ' ')\<close>: every maximal run of white space becomes one space.\<close>

fun squash :: "string \<Rightarrow> string" where
  "squash [] = []"
| "squash [c] = (if is_space c then '' '' else [c])"
| "squash (c # d # cs) =
     (if is_space c
      then (if is_space d then squash (d # cs) else CHR '' '' # squash (d # cs))
      else c # squash (d # cs))"

text \<open>\<^verbatim>\<open>split(' ')\<close> and \<^verbatim>\<open>join(' ')\<close>\<close>

fun split :: "string \<Rightarrow> string list" where
  "split [] = [[]]"
| "split (c # cs) =
     (if c = CHR '' '' then [] # split cs
      else (c # hd (split cs)) # tl (split cs))"

fun join :: "string list \<Rightarrow> string" where
  "join [] = []"
| "join [w] = w"
| "join (w # v # ws) = w @ '' '' @ join (v # ws)"

text \<open>
  \<^verbatim>\<open>toUpperCase\<close> and \<^verbatim>\<open>toLowerCase\<close> of one code unit, on the letters \<^verbatim>\<open>A-Za-z\<close> and
  the space, which are all that is left when line 67 applies them.
\<close>

definition toUpperCase :: "char \<Rightarrow> char" where
  "toUpperCase c =
     (if 97 \<le> (of_char c :: nat) \<and> (of_char c :: nat) \<le> 122
      then char_of (of_char c - 32 :: nat) else c)"

definition toLowerCase :: "char \<Rightarrow> char" where
  "toLowerCase c =
     (if 65 \<le> (of_char c :: nat) \<and> (of_char c :: nat) \<le> 90
      then char_of (of_char c + 32 :: nat) else c)"

text \<open>The function of the \<^verbatim>\<open>map\<close> of line 69: \<^verbatim>\<open>charAt(0)\<close> and \<^verbatim>\<open>slice(1)\<close>.\<close>

definition capitalise :: "string \<Rightarrow> string" where
  "capitalise word = map toUpperCase (take 1 word) @ map toLowerCase (drop 1 word)"

definition parse_handwriting :: "string \<Rightarrow> string option" where
  "parse_handwriting recipeName =
     (if trim recipeName = [] then None
      else (let result = squash (trim (remove_others (replace_dashes recipeName)))
            in if result = [] then None
               else (let result' = join (map capitalise (split result))
                     in if length result' > 0 then Some result' else None)))"


subsection \<open>The contract of \<^verbatim>\<open>normalizeName\<close>, in the words of the specification\<close>

text \<open>
  Section 6 of the specification: \<^verbatim>\<open>-\<close> and \<^verbatim>\<open>_\<close> separate words, as white space
  does; every other character that is not a letter is dropped; the words that are left
  are joined by single spaces, each with its first letter in upper case and the rest
  in lower case; the result is null when no word is left. \<open>fields sep s\<close> cuts \<open>s\<close>
  at every separator.
\<close>

definition is_separator :: "char \<Rightarrow> bool" where
  "is_separator c = (c = CHR ''-'' \<or> c = CHR ''_'' \<or> is_space c)"

fun fields :: "(char \<Rightarrow> bool) \<Rightarrow> string \<Rightarrow> string list" where
  "fields sep [] = [[]]"
| "fields sep (c # cs) =
     (if sep c then [] # fields sep cs
      else (c # hd (fields sep cs)) # tl (fields sep cs))"

definition words_of :: "string \<Rightarrow> string list" where
  "words_of raw = filter (\<lambda>w. w \<noteq> []) (map (filter is_letter) (fields is_separator raw))"

definition normalizeName_spec :: "string \<Rightarrow> string option" where
  "normalizeName_spec raw =
     (if words_of raw = [] then None else Some (join (map capitalise (words_of raw))))"

section \<open>The summary in the words of the specification\<close>

text \<open>
  A path from a list of requirement lines: one of the lines, then a line of the recipe
  it names, and so on down to a line that names an ingredient. Its contribution to
  that ingredient is the product of the quantities along it, which is the quantity of
  its last line times the multiplier accumulated on the way.
\<close>

inductive path :: "cookbook \<Rightarrow> requiredItem list \<Rightarrow> requiredItem list \<Rightarrow> bool" where
  leaf: "x \<in> set items
     \<Longrightarrow> find (\<lambda>e. name e = requiredItem.name x) c = Some (Ingredient n ''ingredient'' cookTime)
     \<Longrightarrow> path c items [x]"
| node: "x \<in> set items
     \<Longrightarrow> find (\<lambda>e. name e = requiredItem.name x) c = Some (Recipe n ''recipe'' sub_items)
     \<Longrightarrow> path c sub_items p
     \<Longrightarrow> path c items (x # p)"

definition contribution :: "requiredItem list \<Rightarrow> int" where
  "contribution p = prod_list (map quantity p)"

text \<open>The cook time of the ingredient that a name resolves to.\<close>

definition cook_of :: "cookbook \<Rightarrow> string \<Rightarrow> int" where
  "cook_of c g =
     (case find (\<lambda>e. name e = g) c of Some (Ingredient n t cookTime) \<Rightarrow> cookTime | _ \<Rightarrow> 0)"

text \<open>The paths of at most \<open>depth + 1\<close> lines, listed in the order of the lines.\<close>

fun paths_list :: "nat \<Rightarrow> cookbook \<Rightarrow> requiredItem list \<Rightarrow> requiredItem list list" where
  "paths_list depth c [] = []"
| "paths_list depth c (x # xs) =
     (case find (\<lambda>e. name e = requiredItem.name x) c of
        None \<Rightarrow> []
      | Some (Ingredient n t cookTime) \<Rightarrow> if t = ''ingredient'' then [[x]] else []
      | Some (Recipe n t sub_items) \<Rightarrow>
          if t = ''recipe''
          then (case depth of 0 \<Rightarrow> [] | Suc d \<Rightarrow> map ((#) x) (paths_list d c sub_items))
          else [])
     @ paths_list depth c xs"

text \<open>
  The aggregation object read as a table of numbers, and the objects that are one:
  distinct keys, every value a number.
\<close>

definition qty :: "(string \<times> jsval) list \<Rightarrow> string \<Rightarrow> int" where
  "qty obj g = (case map_of obj g of Some (Num n) \<Rightarrow> n | _ \<Rightarrow> 0)"

definition numeric :: "(string \<times> jsval) list \<Rightarrow> bool" where
  "numeric obj =
     (distinct (map fst obj)
      \<and> list_all (\<lambda>kv. case snd kv of Num n \<Rightarrow> True | Str s \<Rightarrow> False) obj)"

text \<open>The sums over a list of paths: of cook times, and of quantities of one ingredient.\<close>

definition cook_sum :: "cookbook \<Rightarrow> requiredItem list list \<Rightarrow> int" where
  "cook_sum c ps = sum_list (map (\<lambda>p. cook_of c (requiredItem.name (last p)) * contribution p) ps)"

definition qty_sum :: "string \<Rightarrow> requiredItem list list \<Rightarrow> int" where
  "qty_sum g ps = sum_list (map contribution (filter (\<lambda>p. requiredItem.name (last p) = g) ps))"

section \<open>Invariants of the cookbook and the requirement graph\<close>

text \<open>
  What \<^verbatim>\<open>POST /entry\<close> stores: the tag says which interface the object has, the name
  is not empty, a cook time is not negative, the lines of a recipe have distinct names
  and quantities from 1.
\<close>

definition well_formed :: "entry \<Rightarrow> bool" where
  "well_formed e =
     (case e of
        Ingredient n t cookTime \<Rightarrow> t = ''ingredient'' \<and> n \<noteq> [] \<and> 0 \<le> cookTime
      | Recipe n t items \<Rightarrow>
          t = ''recipe'' \<and> n \<noteq> [] \<and> distinct (map requiredItem.name items)
          \<and> list_all (\<lambda>i. 1 \<le> quantity i) items)"

text \<open>
  The requirement graph that \<^verbatim>\<open>gatherRecipeData\<close> walks: from a name that the cookbook
  resolves to a recipe, to the names of its requirement lines.
\<close>

definition required_items :: "cookbook \<Rightarrow> string \<Rightarrow> requiredItem list" where
  "required_items c a =
     (case find (\<lambda>e. name e = a) c of
        Some (Recipe n t items) \<Rightarrow> if t = ''recipe'' then items else []
      | _ \<Rightarrow> [])"

definition requirement_edges :: "cookbook \<Rightarrow> (string \<times> string) list" where
  "requirement_edges c =
     concat (map (\<lambda>e. map (\<lambda>i. (name e, requiredItem.name i)) (required_items c (name e))) c)"

section \<open>The example of the specification\<close>

text \<open>
  Section 8 of the specification: the ingredient Flour with cook time 2, the recipe
  Dough of two Flour, and the recipe Bread of one Dough and one Flour.
\<close>

definition Flour :: entry where
  "Flour = Ingredient ''Flour'' ''ingredient'' 2"

definition Dough :: entry where
  "Dough = Recipe ''Dough'' ''recipe'' [RequiredItem ''Flour'' 2]"

definition Bread :: entry where
  "Bread = Recipe ''Bread'' ''recipe'' [RequiredItem ''Dough'' 1, RequiredItem ''Flour'' 1]"

definition example_cookbook :: cookbook where
  "example_cookbook = [Flour, Dough, Bread]"

text \<open>
  Two cookbooks with an ingredient named as a property of \<^verbatim>\<open>Object.prototype\<close> is,
  and a recipe Pie of two of it.
\<close>

definition constructor_cookbook :: cookbook where
  "constructor_cookbook =
     [Ingredient ''constructor'' ''ingredient'' 1,
      Recipe ''Pie'' ''recipe'' [RequiredItem ''constructor'' 2]]"

definition proto_cookbook :: cookbook where
  "proto_cookbook =
     [Ingredient ''__proto__'' ''ingredient'' 1,
      Recipe ''Pie'' ''recipe'' [RequiredItem ''__proto__'' 2]]"

text \<open>A recipe that requires itself, and then Water, which nothing stores.\<close>

definition Loop :: entry where
  "Loop = Recipe ''Loop'' ''recipe'' [RequiredItem ''Loop'' 1, RequiredItem ''Water'' 1]"

text \<open>A recipe that requires Water, which nothing stores.\<close>

definition Soup :: entry where
  "Soup = Recipe ''Soup'' ''recipe'' [RequiredItem ''Flour'' 1, RequiredItem ''Water'' 3]"

section \<open>Properties of \<^verbatim>\<open>POST /entry\<close>\<close>

lemma postEntry_outcome:
  "postEntry c entry = (r, c') \<Longrightarrow>
     (c' = c \<and> (r = Status 400 \<or> r = Uncaught TypeError))
     \<or> (r = Status 200 \<and> (\<exists>e. c' = c @ [e] \<and> name e \<notin> name ` set c))"
  unfolding postEntry_def
  by (auto simp: list_ex_iff split: if_splits option.splits json.splits)

lemma check_item_Some:
  "check_item item = Some r \<Longrightarrow>
     item \<noteq> JNull \<and> get_prop item ''name'' = Some (JStr (requiredItem.name r))
     \<and> get_prop item ''quantity'' = Some (JNum (quantity r)) \<and> 1 \<le> quantity r"
  unfolding check_item_def
  by (auto split: if_splits option.splits json.splits)

lemma check_items_Some:
  "check_items items = Some rs \<Longrightarrow>
     map (\<lambda>item. get_prop item ''name'') items = map (\<lambda>r. Some (JStr (requiredItem.name r))) rs
     \<and> list_all (\<lambda>i. 1 \<le> quantity i) rs"
  by (induction items arbitrary: rs) (auto split: option.splits dest: check_item_Some)

lemma Set_size_le: "Set_size xs \<le> length xs"
  by (induction xs) auto

lemma Set_size_strings:
  "Set_size (map (\<lambda>r. Some (JStr (f r))) rs) = length rs \<longleftrightarrow> distinct (map f rs)"
proof (induction rs)
  case Nil
  then show ?case by simp
next
  case (Cons a rs)
  have le: "Set_size (map (\<lambda>r. Some (JStr (f r))) rs) \<le> length rs"
    using Set_size_le [of "map (\<lambda>r. Some (JStr (f r))) rs"] by simp
  have ex: "list_ex (same_value_zero (Some (JStr (f a)))) (map (\<lambda>r. Some (JStr (f r))) rs) \<longleftrightarrow> f a \<in> f ` set rs"
    by (auto simp: list_ex_iff same_value_zero_def)
  show ?case using Cons le ex by auto
qed

lemma postEntry_stored:
  assumes "postEntry c entry = (r, c')" and "c' \<noteq> c"
  shows "r = Status 200 \<and> (\<exists>n. map_of entry ''name'' = Some (JStr n) \<and> n \<noteq> []
           \<and> \<not> list_ex (\<lambda>e. name e = n) c
           \<and> ((\<exists>ct. map_of entry ''type'' = Some (JStr ''ingredient'')
                  \<and> map_of entry ''cookTime'' = Some (JNum ct) \<and> 0 \<le> ct
                  \<and> c' = c @ [Ingredient n ''ingredient'' ct])
              \<or> (\<exists>items rs. map_of entry ''type'' = Some (JStr ''recipe'')
                  \<and> map_of entry ''requiredItems'' = Some (JArr items)
                  \<and> Set_size (map (\<lambda>item. get_prop item ''name'') items) = length items
                  \<and> check_items items = Some rs
                  \<and> c' = c @ [Recipe n ''recipe'' rs])))"
  using assms unfolding postEntry_def
  by (auto split: if_splits option.splits json.splits)

lemma postEntry_well_formed:
  assumes "postEntry c entry = (r, c')"
  shows "c' = c \<or> (\<exists>e. c' = c @ [e] \<and> well_formed e \<and> name e \<notin> name ` set c)"
proof (cases "c' = c")
  case True
  then show ?thesis by simp
next
  case False
  from postEntry_stored [OF assms False] obtain n where
    n: "n \<noteq> []" "\<not> list_ex (\<lambda>e. name e = n) c" and
    alt: "(\<exists>ct. 0 \<le> ct \<and> c' = c @ [Ingredient n ''ingredient'' ct])
          \<or> (\<exists>items rs. Set_size (map (\<lambda>item. get_prop item ''name'') items) = length items
                \<and> check_items items = Some rs \<and> c' = c @ [Recipe n ''recipe'' rs])"
    by blast
  have fresh: "n \<notin> name ` set c" using n(2) by (auto simp: list_ex_iff)
  from alt show ?thesis
  proof
    assume "\<exists>ct. 0 \<le> ct \<and> c' = c @ [Ingredient n ''ingredient'' ct]"
    then show ?thesis using n(1) fresh by (auto simp: well_formed_def)
  next
    assume "\<exists>items rs. Set_size (map (\<lambda>item. get_prop item ''name'') items) = length items
                \<and> check_items items = Some rs \<and> c' = c @ [Recipe n ''recipe'' rs]"
    then obtain items rs where
      sz: "Set_size (map (\<lambda>item. get_prop item ''name'') items) = length items" and
      ck: "check_items items = Some rs" and c': "c' = c @ [Recipe n ''recipe'' rs]"
      by blast
    from check_items_Some [OF ck] have
      m: "map (\<lambda>item. get_prop item ''name'') items = map (\<lambda>r. Some (JStr (requiredItem.name r))) rs"
      and q: "list_all (\<lambda>i. 1 \<le> quantity i) rs" by simp_all
    have "length items = length rs" using m by (metis length_map)
    with sz m have "distinct (map requiredItem.name rs)"
      using Set_size_strings [of requiredItem.name rs] by simp
    then show ?thesis using c' q n(1) fresh by (simp add: well_formed_def)
  qed
qed

lemma reachable_invariant:
  "reachable c \<Longrightarrow> distinct (map name c) \<and> list_all well_formed c"
proof (induction rule: reachable.induct)
  case initial
  then show ?case by simp
next
  case (posted c entry)
  obtain r c' where p: "postEntry c entry = (r, c')" by (cases "postEntry c entry")
  from postEntry_well_formed [OF p] posted.IH show ?case
    using p by auto
qed

lemma postEntry_duplicate:
  assumes "map_of entry ''name'' = Some (JStr n)" and "list_ex (\<lambda>e. name e = n) c"
  shows "postEntry c entry = (Status 400, c)"
  using assms unfolding postEntry_def by simp

lemma find_SomeD: "find P xs = Some x \<Longrightarrow> x \<in> set xs \<and> P x"
  by (induction xs) (auto split: if_splits)

lemma find_append_fresh: "\<not> list_ex P xs \<Longrightarrow> find P (xs @ ys) = find P ys"
  by (induction xs) auto

lemma well_formed_tag: "well_formed e \<Longrightarrow> type e = ''ingredient'' \<or> type e = ''recipe''"
  by (cases e) (simp_all add: well_formed_def)

lemmas example_defs = example_cookbook_def Flour_def Dough_def Bread_def

lemma reachable_example: "reachable example_cookbook"
proof -
  let ?flour = "[(''type'', JStr ''ingredient''), (''name'', JStr ''Flour''), (''cookTime'', JNum 2)]"
  let ?dough = "[(''type'', JStr ''recipe''), (''name'', JStr ''Dough''),
     (''requiredItems'', JArr [JObj [(''name'', JStr ''Flour''), (''quantity'', JNum 2)]])]"
  let ?bread = "[(''type'', JStr ''recipe''), (''name'', JStr ''Bread''),
     (''requiredItems'', JArr [JObj [(''name'', JStr ''Dough''), (''quantity'', JNum 1)],
                               JObj [(''name'', JStr ''Flour''), (''quantity'', JNum 1)]])]"
  have 1: "snd (postEntry [] ?flour) = [Flour]" by code_simp
  have 2: "snd (postEntry [Flour] ?dough) = [Flour, Dough]" by code_simp
  have 3: "snd (postEntry [Flour, Dough] ?bread) = example_cookbook" by code_simp
  have "reachable [Flour]" using reachable.posted [OF reachable.initial, of ?flour] 1 by simp
  then have "reachable [Flour, Dough]" using reachable.posted [of "[Flour]" ?dough] 2 by simp
  then show ?thesis using reachable.posted [of "[Flour, Dough]" ?bread] 3 by simp
qed

text \<open>
  C4. In every reachable state of the cookbook the stored names are pairwise distinct,
  and a request whose name equals (as a string, so with its case) the name of a stored
  entry of either kind is answered 400 and leaves the cookbook as it was, so that the
  entry stored first under that name stays the only one. In the example a second
  \<^verbatim>\<open>Dough\<close> is refused and \<^verbatim>\<open>dough\<close> is stored.
\<close>

theorem stored_names_distinct:
  assumes "reachable c"
  shows "distinct (map name c)
     \<and> (\<forall>entry n. map_of entry ''name'' = Some (JStr n) \<and> list_ex (\<lambda>e. name e = n) c
           \<longrightarrow> postEntry c entry = (Status 400, c))"
  using reachable_invariant [OF assms] postEntry_duplicate by blast

theorem stored_names_distinct_witness:
  "reachable example_cookbook \<and> distinct (map name example_cookbook)
   \<and> postEntry example_cookbook
        [(''type'', JStr ''ingredient''), (''name'', JStr ''Dough''), (''cookTime'', JNum 1)]
      = (Status 400, example_cookbook)
   \<and> postEntry example_cookbook
        [(''type'', JStr ''ingredient''), (''name'', JStr ''dough''), (''cookTime'', JNum 1)]
      = (Status 200, example_cookbook @ [Ingredient ''dough'' ''ingredient'' 1])"
proof -
  let ?entry = "[(''type'', JStr ''ingredient''), (''name'', JStr ''Dough''), (''cookTime'', JNum 1)]"
  have r: "reachable example_cookbook" by (rule reachable_example)
  have h: "map_of ?entry ''name'' = Some (JStr ''Dough'')
            \<and> list_ex (\<lambda>e. name e = ''Dough'') example_cookbook"
    by (simp add: example_defs)
  have l: "postEntry example_cookbook
        [(''type'', JStr ''ingredient''), (''name'', JStr ''dough''), (''cookTime'', JNum 1)]
      = (Status 200, example_cookbook @ [Ingredient ''dough'' ''ingredient'' 1])"
    by code_simp
  from stored_names_distinct [OF r] h have "distinct (map name example_cookbook)"
    and "postEntry example_cookbook ?entry = (Status 400, example_cookbook)" by blast+
  with r l show ?thesis by blast
qed

text \<open>
  C3, at the input where the code departs from it. A recipe whose \<^verbatim>\<open>requiredItems\<close>
  holds a \<^verbatim>\<open>null\<close> passes the checks of type and name and is not stored, but the
  request is not answered 400: \<^verbatim>\<open>item.name\<close> of line 122 throws before the guard
  \<^verbatim>\<open>!item\<close> of line 130 is reached, and the exception leaves the handler.
\<close>

theorem null_item_uncaught:
  assumes "map_of entry ''type'' = Some (JStr ''recipe'')"
    and "map_of entry ''name'' = Some (JStr n)" and "n \<noteq> []"
    and "\<not> list_ex (\<lambda>e. name e = n) c"
    and "map_of entry ''requiredItems'' = Some (JArr items)"
    and "JNull \<in> set items"
  shows "postEntry c entry = (Uncaught TypeError, c)"
  using assms unfolding postEntry_def by (auto simp: list_ex_iff)

theorem null_item_uncaught_witness:
  "postEntry [] [(''type'', JStr ''recipe''), (''name'', JStr ''Soup''),
                 (''requiredItems'', JArr [JNull])] = (Uncaught TypeError, [])"
  using null_item_uncaught [of "[(''type'', JStr ''recipe''), (''name'', JStr ''Soup''),
                 (''requiredItems'', JArr [JNull])]" "''Soup''" "[]" "[JNull]"]
  by simp

text \<open>
  What C3 says of the requests that do not throw: after the checks of type and name, an
  ingredient is stored exactly when \<^verbatim>\<open>cookTime\<close> is a number from 0, a recipe exactly
  when \<^verbatim>\<open>requiredItems\<close> is an array of objects with a string \<^verbatim>\<open>name\<close> and a number
  \<^verbatim>\<open>quantity\<close> from 1 whose names are distinct; and the cookbook changes only with
  the answer 200.
\<close>

lemma check_items_iff:
  "(\<exists>rs. check_items items = Some rs) \<longleftrightarrow>
     (\<forall>item\<in>set items. \<exists>kvs nm q. item = JObj kvs \<and> map_of kvs ''name'' = Some (JStr nm)
          \<and> map_of kvs ''quantity'' = Some (JNum q) \<and> 1 \<le> q)"
proof (induction items)
  case Nil
  then show ?case by simp
next
  case (Cons item items)
  have one: "(\<exists>r. check_item item = Some r) \<longleftrightarrow>
     (\<exists>kvs nm q. item = JObj kvs \<and> map_of kvs ''name'' = Some (JStr nm)
          \<and> map_of kvs ''quantity'' = Some (JNum q) \<and> 1 \<le> q)"
    by (cases item) (auto simp: check_item_def split: option.splits json.splits)
  have "(\<exists>rs. check_items (item # items) = Some rs)
      \<longleftrightarrow> (\<exists>r. check_item item = Some r) \<and> (\<exists>rs. check_items items = Some rs)"
    by (auto split: option.splits)
  also have "\<dots> \<longleftrightarrow> (\<exists>kvs nm q. item = JObj kvs \<and> map_of kvs ''name'' = Some (JStr nm)
          \<and> map_of kvs ''quantity'' = Some (JNum q) \<and> 1 \<le> q)
       \<and> (\<forall>item\<in>set items. \<exists>kvs nm q. item = JObj kvs \<and> map_of kvs ''name'' = Some (JStr nm)
          \<and> map_of kvs ''quantity'' = Some (JNum q) \<and> 1 \<le> q)"
    unfolding one Cons.IH ..
  finally show ?case by simp
qed

lemma ingredient_stored_iff:
  assumes "map_of entry ''type'' = Some (JStr ''ingredient'')"
    and "map_of entry ''name'' = Some (JStr n)" and "n \<noteq> []"
    and "\<not> list_ex (\<lambda>e. name e = n) c"
  shows "fst (postEntry c entry) = Status 200
          \<longleftrightarrow> (\<exists>ct. map_of entry ''cookTime'' = Some (JNum ct) \<and> 0 \<le> ct)"
  using assms unfolding postEntry_def
  by (auto split: option.splits json.splits)

lemma check_items_no_null: "check_items items = Some rs \<Longrightarrow> JNull \<notin> set items"
  by (induction items arbitrary: rs) (auto simp: check_item_def split: option.splits)

lemma recipe_stored_iff:
  assumes "map_of entry ''type'' = Some (JStr ''recipe'')"
    and "map_of entry ''name'' = Some (JStr n)" and "n \<noteq> []"
    and "\<not> list_ex (\<lambda>e. name e = n) c"
  shows "fst (postEntry c entry) = Status 200
          \<longleftrightarrow> (\<exists>items rs. map_of entry ''requiredItems'' = Some (JArr items)
                \<and> check_items items = Some rs \<and> distinct (map requiredItem.name rs))"
proof
  assume ok: "fst (postEntry c entry) = Status 200"
  obtain r c' where p: "postEntry c entry = (r, c')" by (cases "postEntry c entry")
  with ok postEntry_outcome [OF p] have "c' \<noteq> c" by auto
  from postEntry_stored [OF p this] assms(1) obtain items rs where
    i: "map_of entry ''requiredItems'' = Some (JArr items)"
      "Set_size (map (\<lambda>item. get_prop item ''name'') items) = length items"
      "check_items items = Some rs"
    by auto
  from check_items_Some [OF i(3)] have
    m: "map (\<lambda>item. get_prop item ''name'') items = map (\<lambda>r. Some (JStr (requiredItem.name r))) rs"
    by simp
  have "length items = length rs" using m by (metis length_map)
  with i(2) m have "distinct (map requiredItem.name rs)"
    using Set_size_strings [of requiredItem.name rs] by simp
  with i show "\<exists>items rs. map_of entry ''requiredItems'' = Some (JArr items)
                \<and> check_items items = Some rs \<and> distinct (map requiredItem.name rs)"
    by blast
next
  assume "\<exists>items rs. map_of entry ''requiredItems'' = Some (JArr items)
                \<and> check_items items = Some rs \<and> distinct (map requiredItem.name rs)"
  then obtain items rs where i: "map_of entry ''requiredItems'' = Some (JArr items)"
    "check_items items = Some rs" "distinct (map requiredItem.name rs)" by blast
  from check_items_Some [OF i(2)] have
    m: "map (\<lambda>item. get_prop item ''name'') items = map (\<lambda>r. Some (JStr (requiredItem.name r))) rs"
    by simp
  have "length items = length rs" using m by (metis length_map)
  then have sz: "Set_size (map (\<lambda>item. get_prop item ''name'') items) = length items"
    using i(3) m Set_size_strings [of requiredItem.name rs] by simp
  have nn: "\<not> list_ex (\<lambda>item. item = JNull) items"
    using check_items_no_null [OF i(2)] by (simp add: list_ex_iff)
  show "fst (postEntry c entry) = Status 200"
    using assms i(1,2) sz nn unfolding postEntry_def by simp
qed


section \<open>Properties of \<^verbatim>\<open>gatherRecipeData\<close>\<close>

text \<open>One lemma for each way through the body of the loop.\<close>

lemma gather_loop_None:
  "find (\<lambda>e. name e = requiredItem.name x) c = None \<Longrightarrow>
     gather_loop s c (x # xs) m agg tot = Inl (Missing_item (requiredItem.name x))"
  by simp

lemma gather_loop_Ingredient:
  "find (\<lambda>e. name e = requiredItem.name x) c = Some (Ingredient n ''ingredient'' ct) \<Longrightarrow>
     gather_loop s c (x # xs) m agg tot
       = gather_loop s c xs m (add_quantity agg n (quantity x * m)) (tot + ct * (quantity x * m))"
  by simp

lemma gather_loop_Recipe:
  "find (\<lambda>e. name e = requiredItem.name x) c = Some (Recipe n ''recipe'' its) \<Longrightarrow>
     gather_loop (Suc d) c (x # xs) m agg tot
       = (case gather_loop d c its (quantity x * m) agg 0 of
            Inl err \<Rightarrow> Inl err
          | Inr (sub, agg') \<Rightarrow> gather_loop (Suc d) c xs m agg' (tot + sub))"
  by simp

lemma gather_loop_overflow:
  "find (\<lambda>e. name e = requiredItem.name x) c = Some e \<Longrightarrow> type e = ''recipe'' \<Longrightarrow>
     gather_loop 0 c (x # xs) m agg tot = Inl RangeError"
  by simp

lemma gather_loop_no_cookTime:
  "find (\<lambda>e. name e = requiredItem.name x) c = Some (Recipe n ''ingredient'' its) \<Longrightarrow>
     gather_loop s c (x # xs) m agg tot = Inl Undefined_cookTime"
  by simp

lemma gather_loop_no_items:
  "find (\<lambda>e. name e = requiredItem.name x) c = Some (Ingredient n ''recipe'' ct) \<Longrightarrow>
     gather_loop (Suc d) c (x # xs) m agg tot = Inl TypeError"
  by simp

lemma gather_loop_Invalid:
  "find (\<lambda>e. name e = requiredItem.name x) c = Some e \<Longrightarrow> type e \<noteq> ''ingredient''
     \<Longrightarrow> type e \<noteq> ''recipe''
     \<Longrightarrow> gather_loop s c (x # xs) m agg tot = Inl (Invalid_type (type e) (name e))"
  by simp

declare gather_loop.simps(2) [simp del]

text \<open>
  A result other than the RangeError does not depend on how much room the stack has left.
\<close>

lemma gather_loop_mono:
  "gather_loop s c items m agg tot = r \<Longrightarrow> r \<noteq> Inl RangeError \<Longrightarrow> s \<le> s'
     \<Longrightarrow> gather_loop s' c items m agg tot = r"
proof (induction s c items m agg tot arbitrary: s' r rule: gather_loop.induct)
  case (1 stack c multiplier aggregated totalCookTime)
  then show ?case by simp
next
  case (2 stack c x rest m agg tot)
  let ?f = "find (\<lambda>e. name e = requiredItem.name x) c"
  show ?case
  proof (cases ?f)
    case None
    then show ?thesis using "2.prems"(1) by (simp add: gather_loop_None)
  next
    case (Some referenced)
    consider (ing) n ct where "referenced = Ingredient n ''ingredient'' ct"
      | (bad1) n its where "referenced = Recipe n ''ingredient'' its"
      | (rec) n its where "referenced = Recipe n ''recipe'' its"
      | (bad2) n ct where "referenced = Ingredient n ''recipe'' ct"
      | (inv) "type referenced \<noteq> ''ingredient''" "type referenced \<noteq> ''recipe''"
      by (cases referenced) auto
    then show ?thesis
    proof cases
      case ing
      have f: "?f = Some (Ingredient n ''ingredient'' ct)" using Some ing by simp
      have "gather_loop stack c rest m (add_quantity agg n (quantity x * m))
               (tot + ct * (quantity x * m)) = r"
        using "2.prems"(1) by (simp add: gather_loop_Ingredient [OF f])
      then have "gather_loop s' c rest m (add_quantity agg n (quantity x * m))
               (tot + ct * (quantity x * m)) = r"
        using "2.IH"(1) [OF Some _ ing _ "2.prems"(2,3)] ing by simp
      then show ?thesis by (simp add: gather_loop_Ingredient [OF f])
    next
      case bad1
      have f: "?f = Some (Recipe n ''ingredient'' its)" using Some bad1 by simp
      show ?thesis using "2.prems"(1) by (simp add: gather_loop_no_cookTime [OF f])
    next
      case inv
      show ?thesis using "2.prems"(1) by (simp add: gather_loop_Invalid [OF Some inv])
    next
      case bad2
      have f: "?f = Some (Ingredient n ''recipe'' ct)" using Some bad2 by simp
      have t: "type referenced = ''recipe''" using bad2 by simp
      obtain d where d: "stack = Suc d"
        using "2.prems"(1,2) gather_loop_overflow [OF Some t] by (cases stack) auto
      obtain d' where d': "s' = Suc d'" using "2.prems"(3) d by (cases s') auto
      show ?thesis using "2.prems"(1) unfolding d d' by (simp add: gather_loop_no_items [OF f])
    next
      case rec
      have f: "?f = Some (Recipe n ''recipe'' its)" using Some rec by simp
      have t: "type referenced \<noteq> ''ingredient''" "type referenced = ''recipe''" using rec by simp_all
      obtain d where d: "stack = Suc d"
        using "2.prems"(1,2) gather_loop_overflow [OF Some t(2)] by (cases stack) auto
      obtain d' where d': "s' = Suc d'" "d \<le> d'" using "2.prems"(3) d by (cases s') auto
      let ?nested = "\<lambda>k. gather_loop k c its (quantity x * m) agg 0"
      have unf: "gather_loop (Suc k) c (x # rest) m agg tot
          = (case ?nested k of Inl err \<Rightarrow> Inl err
             | Inr (sub, agg') \<Rightarrow> gather_loop (Suc k) c rest m agg' (tot + sub))" for k
        by (rule gather_loop_Recipe [OF f])
      show ?thesis
      proof (cases "?nested d")
        case (Inl err)
        then have r: "r = Inl err" using "2.prems"(1) unfolding d unf by simp
        then have "err \<noteq> RangeError" using "2.prems"(2) by simp
        then have "?nested d' = Inl err"
          using "2.IH"(2) [OF Some t d rec Inl _ d'(2)] by simp
        then show ?thesis unfolding d' unf r by simp
      next
        case (Inr b)
        obtain sub agg' where b: "b = (sub, agg')" by (cases b)
        have n: "?nested d' = Inr b"
          using "2.IH"(2) [OF Some t d rec Inr _ d'(2)] by simp
        have "gather_loop stack c rest m agg' (tot + sub) = r"
          using "2.prems"(1) Inr b unfolding d unf by simp
        then have "gather_loop s' c rest m agg' (tot + sub) = r"
          using "2.IH"(3) [OF Some t d rec Inr b [symmetric] _ "2.prems"(2,3)] by simp
        then show ?thesis unfolding d' unf n b by simp
      qed
    qed
  qed
qed

subsection \<open>Termination on an acyclic requirement graph\<close>

lemma required_items_Recipe:
  "find (\<lambda>e. name e = a) c = Some (Recipe n ''recipe'' its) \<Longrightarrow> required_items c a = its"
  by (simp add: required_items_def)

lemma requirement_edges_iff:
  "(a, b) \<in> set (requirement_edges c) \<longleftrightarrow> b \<in> requiredItem.name ` set (required_items c a)"
proof
  assume "(a, b) \<in> set (requirement_edges c)"
  then show "b \<in> requiredItem.name ` set (required_items c a)"
    by (auto simp: requirement_edges_def)
next
  assume b: "b \<in> requiredItem.name ` set (required_items c a)"
  then have "required_items c a \<noteq> []" by auto
  then obtain e where e: "find (\<lambda>e. name e = a) c = Some e"
    by (cases "find (\<lambda>e. name e = a) c") (auto simp: required_items_def)
  from find_SomeD [OF e] have "e \<in> set c" "name e = a" by simp_all
  with b show "(a, b) \<in> set (requirement_edges c)"
    by (auto simp: requirement_edges_def)
qed

lemma gather_loop_bounded:
  assumes IH: "\<And>b. b \<in> requiredItem.name ` set items \<Longrightarrow>
            \<exists>N. \<forall>stack\<ge>N. \<forall>m agg tot. gather_loop stack c (required_items c b) m agg tot \<noteq> Inl RangeError"
  shows "\<exists>N. \<forall>stack\<ge>N. \<forall>m agg tot. gather_loop stack c items m agg tot \<noteq> Inl RangeError"
  using IH
proof (induction items)
  case Nil
  then show ?case by simp
next
  case (Cons x xs)
  let ?f = "find (\<lambda>e. name e = requiredItem.name x) c"
  from Cons obtain N1 where N1: "\<forall>stack\<ge>N1. \<forall>m agg tot. gather_loop stack c xs m agg tot \<noteq> Inl RangeError"
    by auto
  from Cons.prems [of "requiredItem.name x"] obtain N2 where
    N2: "\<forall>stack\<ge>N2. \<forall>m agg tot. gather_loop stack c (required_items c (requiredItem.name x)) m agg tot \<noteq> Inl RangeError"
    by auto
  have "\<forall>stack\<ge>max N1 (Suc N2). \<forall>m agg tot. gather_loop stack c (x # xs) m agg tot \<noteq> Inl RangeError"
  proof (intro allI impI)
    fix stack m agg tot
    assume "max N1 (Suc N2) \<le> stack"
    then obtain d where d: "stack = Suc d" "N2 \<le> d" and s1: "N1 \<le> stack"
      by (cases stack) auto
    show "gather_loop stack c (x # xs) m agg tot \<noteq> Inl RangeError"
    proof (cases ?f)
      case None
      then show ?thesis by (simp add: gather_loop_None)
    next
      case (Some referenced)
      consider (ing) n ct where "referenced = Ingredient n ''ingredient'' ct"
        | (bad1) n its where "referenced = Recipe n ''ingredient'' its"
        | (rec) n its where "referenced = Recipe n ''recipe'' its"
        | (bad2) n ct where "referenced = Ingredient n ''recipe'' ct"
        | (inv) "type referenced \<noteq> ''ingredient''" "type referenced \<noteq> ''recipe''"
        by (cases referenced) auto
      then show ?thesis
      proof cases
        case ing
        then have f: "?f = Some (Ingredient n ''ingredient'' ct)" using Some by simp
        show ?thesis using N1 s1 by (simp add: gather_loop_Ingredient [OF f])
      next
        case bad1
        then have f: "?f = Some (Recipe n ''ingredient'' its)" using Some by simp
        show ?thesis by (simp add: gather_loop_no_cookTime [OF f])
      next
        case bad2
        then have f: "?f = Some (Ingredient n ''recipe'' ct)" using Some by simp
        show ?thesis unfolding d by (simp add: gather_loop_no_items [OF f])
      next
        case inv
        show ?thesis by (simp add: gather_loop_Invalid [OF Some inv])
      next
        case rec
        then have f: "?f = Some (Recipe n ''recipe'' its)" using Some by simp
        have its: "required_items c (requiredItem.name x) = its"
          by (rule required_items_Recipe [OF f])
        have nested: "gather_loop d c its (quantity x * m) agg 0 \<noteq> Inl RangeError"
          using N2 d(2) its by simp
        show ?thesis
        proof (cases "gather_loop d c its (quantity x * m) agg 0")
          case (Inl err)
          then show ?thesis using nested unfolding d gather_loop_Recipe [OF f] by simp
        next
          case (Inr b)
          obtain sub agg' where b: "b = (sub, agg')" by (cases b)
          have "gather_loop (Suc d) c xs m agg' (tot + sub) \<noteq> Inl RangeError"
            using N1 s1 d(1) by simp
          then show ?thesis unfolding d gather_loop_Recipe [OF f] Inr b by simp
        qed
      qed
    qed
  qed
  then show ?case by blast
qed

lemma acyclic_bounded:
  assumes "acyclic (set (requirement_edges c))"
  shows "\<exists>N. \<forall>stack\<ge>N. \<forall>m agg tot. gather_loop stack c (required_items c a) m agg tot \<noteq> Inl RangeError"
proof -
  have wf: "wf ((set (requirement_edges c))\<inverse>)"
    using assms by (simp add: finite_acyclic_wf_converse)
  show ?thesis
  proof (induction a rule: wf_induct_rule [OF wf])
    case (1 a)
    show ?case
    proof (rule gather_loop_bounded)
      fix b assume "b \<in> requiredItem.name ` set (required_items c a)"
      then have "(b, a) \<in> (set (requirement_edges c))\<inverse>"
        by (simp add: requirement_edges_iff)
      then show "\<exists>N. \<forall>stack\<ge>N. \<forall>m agg tot.
          gather_loop stack c (required_items c b) m agg tot \<noteq> Inl RangeError"
        by (rule 1)
    qed
  qed
qed

lemma example_edges:
  "requirement_edges example_cookbook
     = [(''Dough'', ''Flour''), (''Bread'', ''Dough''), (''Bread'', ''Flour'')]"
  by code_simp

lemma example_acyclic: "acyclic (set (requirement_edges example_cookbook))"
  unfolding example_edges
  by (rule acyclicI_order
        [where f = "\<lambda>s. if s = ''Bread'' then 2 else if s = ''Dough'' then 1 else (0::nat)"])
     auto

text \<open>
  C6. When the requirement graph of the cookbook is acyclic, \<^verbatim>\<open>gatherRecipeData\<close>
  returns on every recipe, with every multiplier and every aggregation object: there is
  a depth of the call stack from which on the call never runs out of room, and its
  result is then the same whatever the room. The source sets no bound of its own; the
  only one in the model is the parameter that stands for the stack of the engine.
\<close>

theorem gatherRecipeData_terminates:
  assumes "acyclic (set (requirement_edges c))"
  shows "\<exists>N. \<forall>stack\<ge>N. \<forall>multiplier aggregated.
           gatherRecipeData stack c rec multiplier aggregated \<noteq> Inl RangeError
           \<and> gatherRecipeData stack c rec multiplier aggregated
               = gatherRecipeData N c rec multiplier aggregated"
proof (cases rec)
  case (Ingredient n t ct)
  then show ?thesis by (simp add: gatherRecipeData_def)
next
  case (Recipe n t items)
  have "\<And>b. \<exists>N. \<forall>stack\<ge>N. \<forall>m agg tot.
            gather_loop stack c (required_items c b) m agg tot \<noteq> Inl RangeError"
    by (rule acyclic_bounded [OF assms])
  from gather_loop_bounded [of items c, OF this] obtain N where
    N: "\<forall>stack\<ge>N. \<forall>m agg tot. gather_loop stack c items m agg tot \<noteq> Inl RangeError"
    by blast
  have "\<forall>stack\<ge>N. \<forall>m agg. gather_loop stack c items m agg 0 \<noteq> Inl RangeError
          \<and> gather_loop stack c items m agg 0 = gather_loop N c items m agg 0"
  proof (intro allI impI)
    fix stack m agg
    assume le: "N \<le> stack"
    have "gather_loop N c items m agg 0 \<noteq> Inl RangeError" using N by simp
    from gather_loop_mono [OF refl this le] N le
    show "gather_loop stack c items m agg 0 \<noteq> Inl RangeError
          \<and> gather_loop stack c items m agg 0 = gather_loop N c items m agg 0"
      by simp
  qed
  then show ?thesis unfolding Recipe gatherRecipeData_def by auto
qed

theorem gatherRecipeData_terminates_witness:
  "acyclic (set (requirement_edges example_cookbook))
   \<and> (\<exists>N. \<forall>stack\<ge>N. \<forall>multiplier aggregated.
           gatherRecipeData stack example_cookbook Bread multiplier aggregated \<noteq> Inl RangeError
           \<and> gatherRecipeData stack example_cookbook Bread multiplier aggregated
               = gatherRecipeData N example_cookbook Bread multiplier aggregated)"
  using example_acyclic gatherRecipeData_terminates [OF example_acyclic] by blast

subsection \<open>Requirements that are missing\<close>

lemma no_edge_from_ingredient:
  "find (\<lambda>e. name e = a) c = Some (Ingredient n t ct) \<Longrightarrow> (a, z) \<notin> set (requirement_edges c)"
  by (simp add: requirement_edges_iff required_items_def)

lemma gather_loop_Inr_present:
  "gather_loop s c items m agg tot = Inr r \<Longrightarrow> i \<in> set items
     \<Longrightarrow> (requiredItem.name i, y) \<in> (set (requirement_edges c))\<^sup>*
     \<Longrightarrow> find (\<lambda>e. name e = y) c \<noteq> None"
proof (induction s c items m agg tot arbitrary: r i y rule: gather_loop.induct)
  case (1 stack c multiplier aggregated totalCookTime)
  then show ?case by simp
next
  case (2 stack c x rest m agg tot)
  let ?f = "find (\<lambda>e. name e = requiredItem.name x) c"
  let ?R = "set (requirement_edges c)"
  show ?case
  proof (cases ?f)
    case None
    then show ?thesis using "2.prems"(1) by (simp add: gather_loop_None)
  next
    case (Some referenced)
    consider (ing) n ct where "referenced = Ingredient n ''ingredient'' ct"
      | (bad1) n its where "referenced = Recipe n ''ingredient'' its"
      | (rec) n its where "referenced = Recipe n ''recipe'' its"
      | (bad2) n ct where "referenced = Ingredient n ''recipe'' ct"
      | (inv) "type referenced \<noteq> ''ingredient''" "type referenced \<noteq> ''recipe''"
      by (cases referenced) auto
    then show ?thesis
    proof cases
      case ing
      have f: "?f = Some (Ingredient n ''ingredient'' ct)" using Some ing by simp
      have rest: "gather_loop stack c rest m (add_quantity agg n (quantity x * m))
               (tot + ct * (quantity x * m)) = Inr r"
        using "2.prems"(1) by (simp add: gather_loop_Ingredient [OF f])
      show ?thesis
      proof (cases "i = x")
        case True
        from "2.prems"(3) have "y = requiredItem.name x"
          unfolding True using no_edge_from_ingredient [OF f]
          by (auto elim: converse_rtranclE)
        then show ?thesis using f by simp
      next
        case False
        then have "i \<in> set rest" using "2.prems"(2) by simp
        from "2.IH"(1) [OF Some _ ing rest this "2.prems"(3)] ing show ?thesis by simp
      qed
    next
      case bad1
      have f: "?f = Some (Recipe n ''ingredient'' its)" using Some bad1 by simp
      show ?thesis using "2.prems"(1) by (simp add: gather_loop_no_cookTime [OF f])
    next
      case inv
      show ?thesis using "2.prems"(1) by (simp add: gather_loop_Invalid [OF Some inv])
    next
      case bad2
      have f: "?f = Some (Ingredient n ''recipe'' ct)" using Some bad2 by simp
      have t: "type referenced = ''recipe''" using bad2 by simp
      show ?thesis using "2.prems"(1) gather_loop_overflow [OF Some t] gather_loop_no_items [OF f]
        by (cases stack) auto
    next
      case rec
      have f: "?f = Some (Recipe n ''recipe'' its)" using Some rec by simp
      have t: "type referenced \<noteq> ''ingredient''" "type referenced = ''recipe''" using rec by simp_all
      obtain d where d: "stack = Suc d"
        using "2.prems"(1) gather_loop_overflow [OF Some t(2)] by (cases stack) auto
      obtain sub agg' where
        nested: "gather_loop d c its (quantity x * m) agg 0 = Inr (sub, agg')" and
        rest: "gather_loop stack c rest m agg' (tot + sub) = Inr r"
        using "2.prems"(1) unfolding d gather_loop_Recipe [OF f]
        by (auto split: sum.splits)
      show ?thesis
      proof (cases "i = x")
        case False
        then have "i \<in> set rest" using "2.prems"(2) by simp
        from "2.IH"(3) [OF Some t d rec nested _ rest this "2.prems"(3)] show ?thesis by simp
      next
        case True
        from "2.prems"(3) show ?thesis unfolding True
        proof (cases rule: converse_rtranclE)
          case base
          then show ?thesis using f by simp
        next
          case (step z)
          from step(1) have "z \<in> requiredItem.name ` set its"
            by (simp add: requirement_edges_iff required_items_Recipe [OF f])
          then obtain j where j: "j \<in> set its" "z = requiredItem.name j" by auto
          from "2.IH"(2) [OF Some t d rec nested j(1)] step(2) j(2) show ?thesis by simp
        qed
      qed
    qed
  qed
qed

lemma well_formed_found:
  assumes "list_all well_formed c" and "find P c = Some referenced"
  obtains (ing) n ct where "referenced = Ingredient n ''ingredient'' ct"
    | (rec) n its where "referenced = Recipe n ''recipe'' its"
proof -
  have "well_formed referenced"
    using assms find_SomeD [OF assms(2)] by (simp add: list_all_iff)
  then show ?thesis using that by (cases referenced) (auto simp: well_formed_def)
qed

lemma gather_loop_thrown:
  "gather_loop s c items m agg tot = Inl err \<Longrightarrow> list_all well_formed c \<Longrightarrow>
     err = RangeError \<or> (\<exists>y. err = Missing_item y \<and> find (\<lambda>e. name e = y) c = None)"
proof (induction s c items m agg tot rule: gather_loop.induct)
  case (1 stack c multiplier aggregated totalCookTime)
  then show ?case by simp
next
  case (2 stack c x rest m agg tot)
  let ?f = "find (\<lambda>e. name e = requiredItem.name x) c"
  show ?case
  proof (cases ?f)
    case None
    then show ?thesis using "2.prems"(1) by (auto simp: gather_loop_None)
  next
    case (Some referenced)
    from "2.prems"(2) Some show ?thesis
    proof (cases rule: well_formed_found)
      case (ing n ct)
      have f: "?f = Some (Ingredient n ''ingredient'' ct)" using Some ing by simp
      have "gather_loop stack c rest m (add_quantity agg n (quantity x * m))
               (tot + ct * (quantity x * m)) = Inl err"
        using "2.prems"(1) by (simp add: gather_loop_Ingredient [OF f])
      from "2.IH"(1) [OF Some _ ing this "2.prems"(2)] ing show ?thesis by simp
    next
      case (rec n its)
      have f: "?f = Some (Recipe n ''recipe'' its)" using Some rec by simp
      have t: "type referenced \<noteq> ''ingredient''" "type referenced = ''recipe''" using rec by simp_all
      show ?thesis
      proof (cases stack)
        case 0
        then show ?thesis using "2.prems"(1) gather_loop_overflow [OF Some t(2)] by simp
      next
        case (Suc d)
        show ?thesis
        proof (cases "gather_loop d c its (quantity x * m) agg 0")
          case (Inl e)
          then have "e = err" using "2.prems"(1) unfolding Suc gather_loop_Recipe [OF f] by simp
          with "2.IH"(2) [OF Some t Suc rec _ "2.prems"(2)] Inl show ?thesis by simp
        next
          case (Inr b)
          obtain sub agg' where b: "b = (sub, agg')" by (cases b)
          have "gather_loop stack c rest m agg' (tot + sub) = Inl err"
            using "2.prems"(1) Inr b unfolding Suc gather_loop_Recipe [OF f] by simp
          from "2.IH"(3) [OF Some t Suc rec Inr b [symmetric] this "2.prems"(2)]
          show ?thesis .
        qed
      qed
    qed
  qed
qed

lemma required_items_found:
  "i \<in> set (required_items c a) \<Longrightarrow>
     \<exists>nm. find (\<lambda>e. name e = a) c = Some (Recipe nm ''recipe'' (required_items c a))"
  by (cases "find (\<lambda>e. name e = a) c")
     (auto simp: required_items_def split: entry.splits if_splits)

text \<open>
  No reachable cookbook holds an object whose tag and fields disagree, or whose tag is
  unknown: of the \<^verbatim>\<open>throw\<close>s and failures of \<^verbatim>\<open>gatherRecipeData\<close>, only the
  missing item and the exhausted stack occur.
\<close>

lemma reachable_shape:
  assumes "reachable c" and "gather_loop stack c items m agg tot = Inl err"
  shows "err \<noteq> TypeError \<and> err \<noteq> Undefined_cookTime \<and> (\<forall>t n. err \<noteq> Invalid_type t n)"
  using gather_loop_thrown [OF assms(2)] reachable_invariant [OF assms(1)] by auto

lemma Loop_overflows:
  "gather_loop stack [Loop] [RequiredItem ''Loop'' 1, RequiredItem ''Water'' 1] m agg tot
     = Inl RangeError"
proof (induction stack arbitrary: m agg tot)
  case 0
  have "find (\<lambda>e. name e = requiredItem.name (RequiredItem ''Loop'' 1)) [Loop] = Some Loop"
    by (simp add: Loop_def)
  moreover have "type Loop = ''recipe''" by (simp add: Loop_def)
  ultimately show ?case by (rule gather_loop_overflow)
next
  case (Suc d)
  have f: "find (\<lambda>e. name e = requiredItem.name (RequiredItem ''Loop'' 1)) [Loop]
      = Some (Recipe ''Loop'' ''recipe'' [RequiredItem ''Loop'' 1, RequiredItem ''Water'' 1])"
    by (simp add: Loop_def)
  show ?case unfolding gather_loop_Recipe [OF f] Suc by simp
qed

text \<open>
  C2 as stated does not hold for every cookbook. The recipe Loop requires itself and
  then Water, which is not stored: the walk never reaches the line of Water, and what
  \<^verbatim>\<open>gatherRecipeData\<close> fails with is the exhausted stack, whatever room it has.
\<close>

theorem cycle_before_missing:
  "reachable [Loop]
   \<and> (''Loop'', ''Water'') \<in> (set (requirement_edges [Loop]))\<^sup>+
   \<and> find (\<lambda>e. name e = ''Water'') [Loop] = None
   \<and> (\<forall>stack. gatherRecipeData stack [Loop] Loop 1 [] = Inl RangeError)"
proof -
  let ?loop = "[(''type'', JStr ''recipe''), (''name'', JStr ''Loop''),
     (''requiredItems'', JArr [JObj [(''name'', JStr ''Loop''), (''quantity'', JNum 1)],
                               JObj [(''name'', JStr ''Water''), (''quantity'', JNum 1)]])]"
  have "snd (postEntry [] ?loop) = [Loop]" by code_simp
  then have r: "reachable [Loop]" using reachable.posted [OF reachable.initial, of ?loop] by simp
  have "requirement_edges [Loop] = [(''Loop'', ''Loop''), (''Loop'', ''Water'')]" by code_simp
  then have e: "(''Loop'', ''Water'') \<in> (set (requirement_edges [Loop]))\<^sup>+" by auto
  have w: "find (\<lambda>e. name e = ''Water'') [Loop] = None" by code_simp
  have "gatherRecipeData stack [Loop] Loop 1 [] = Inl RangeError" for stack
    using Loop_overflows [of stack 1 "[]" 0] by (simp add: gatherRecipeData_def Loop_def)
  with r e w show ?thesis by blast
qed

lemma requires_missing_fails:
  assumes "(n, y) \<in> (set (requirement_edges c))\<^sup>+" and "find (\<lambda>e. name e = y) c = None"
  shows "\<exists>nm its. find (\<lambda>e. name e = n) c = Some (Recipe nm ''recipe'' its)
           \<and> (\<forall>stack m agg. \<exists>err. gather_loop stack c its m agg 0 = Inl err)"
proof -
  from assms obtain z where z: "(n, z) \<in> set (requirement_edges c)"
    and y: "(z, y) \<in> (set (requirement_edges c))\<^sup>*"
    by (auto dest: tranclD)
  from z have "z \<in> requiredItem.name ` set (required_items c n)"
    by (simp add: requirement_edges_iff)
  then obtain i where i0: "i \<in> set (required_items c n)" "z = requiredItem.name i" by auto
  from required_items_found [OF i0(1)] obtain nm its where its: "required_items c n = its"
    and f: "find (\<lambda>e. name e = n) c = Some (Recipe nm ''recipe'' its)" by auto
  have i: "i \<in> set its" "z = requiredItem.name i" using i0 its by simp_all
  have "\<exists>err. gather_loop stack c its m agg 0 = Inl err" for stack m agg
  proof (cases "gather_loop stack c its m agg 0")
    case (Inl err)
    then show ?thesis by simp
  next
    case (Inr r)
    from gather_loop_Inr_present [OF Inr i(1) y [unfolded i(2)]] assms(2) show ?thesis by simp
  qed
  with f show ?thesis by blast
qed

text \<open>
  C2 as amended. \<^verbatim>\<open>GET /summary\<close> answers 400 when the name is not in the cookbook
  and when it names an ingredient. When the recipe, directly or through other recipes,
  requires a name that is not in the cookbook, the answer is 400 as well and carries no
  summary: \<^verbatim>\<open>gatherRecipeData\<close> throws, and in a reachable cookbook what it throws,
  unless the stack ran out first, is the error of a missing item, for a name that is
  missing. When the requirement graph is acyclic the stack does not run out, from some
  depth on, and the error is that of a missing item.
\<close>

theorem getSummary_rejects:
  "(find (\<lambda>e. name e = n) c = None
      \<or> (\<exists>e. find (\<lambda>e. name e = n) c = Some e \<and> type e = ''ingredient'')
     \<longrightarrow> getSummary stack c (Some (JStr n)) = (Status 400, c))
   \<and> ((\<exists>y. (n, y) \<in> (set (requirement_edges c))\<^sup>+ \<and> find (\<lambda>e. name e = y) c = None)
     \<longrightarrow> getSummary stack c (Some (JStr n)) = (Status 400, c)
         \<and> (\<exists>rec. find (\<lambda>e. name e = n) c = Some rec
               \<and> (\<forall>m agg. \<exists>err. gatherRecipeData stack c rec m agg = Inl err
                      \<and> (reachable c \<and> err \<noteq> RangeError
                           \<longrightarrow> (\<exists>y. err = Missing_item y \<and> find (\<lambda>e. name e = y) c = None)))
               \<and> (reachable c \<and> acyclic (set (requirement_edges c))
                     \<longrightarrow> (\<exists>N. \<forall>deep\<ge>N. \<exists>y. gatherRecipeData deep c rec 1 [] = Inl (Missing_item y)
                                  \<and> find (\<lambda>e. name e = y) c = None))))"
proof (intro conjI impI)
  assume "find (\<lambda>e. name e = n) c = None
      \<or> (\<exists>e. find (\<lambda>e. name e = n) c = Some e \<and> type e = ''ingredient'')"
  then show "getSummary stack c (Some (JStr n)) = (Status 400, c)"
    by (auto simp: getSummary_def)
next
  assume "\<exists>y. (n, y) \<in> (set (requirement_edges c))\<^sup>+ \<and> find (\<lambda>e. name e = y) c = None"
  then obtain y where "(n, y) \<in> (set (requirement_edges c))\<^sup>+" "find (\<lambda>e. name e = y) c = None"
    by blast
  from requires_missing_fails [OF this] obtain nm its where
    f: "find (\<lambda>e. name e = n) c = Some (Recipe nm ''recipe'' its)" and
    fail: "\<And>stack m agg. \<exists>err. gather_loop stack c its m agg 0 = Inl err"
    by blast
  let ?rec = "Recipe nm ''recipe'' its"
  show "getSummary stack c (Some (JStr n)) = (Status 400, c)"
    using f fail [of stack 1 "[]"] by (auto simp: getSummary_def gatherRecipeData_def)
  have kind: "reachable c \<and> err \<noteq> RangeError
            \<longrightarrow> (\<exists>y. err = Missing_item y \<and> find (\<lambda>e. name e = y) c = None)"
    if "gather_loop s c its m agg 0 = Inl err" for s m agg err
    using gather_loop_thrown [OF that] reachable_invariant by blast
  have 1: "\<forall>m agg. \<exists>err. gatherRecipeData stack c ?rec m agg = Inl err
                      \<and> (reachable c \<and> err \<noteq> RangeError
                           \<longrightarrow> (\<exists>y. err = Missing_item y \<and> find (\<lambda>e. name e = y) c = None))"
  proof (intro allI)
    fix m agg
    from fail [of stack m agg] obtain err where err: "gather_loop stack c its m agg 0 = Inl err" ..
    with kind [OF err] show "\<exists>err. gatherRecipeData stack c ?rec m agg = Inl err
                      \<and> (reachable c \<and> err \<noteq> RangeError
                           \<longrightarrow> (\<exists>y. err = Missing_item y \<and> find (\<lambda>e. name e = y) c = None))"
      by (simp add: gatherRecipeData_def)
  qed
  have 2: "reachable c \<and> acyclic (set (requirement_edges c))
             \<longrightarrow> (\<exists>N. \<forall>deep\<ge>N. \<exists>y. gatherRecipeData deep c ?rec 1 [] = Inl (Missing_item y)
                                  \<and> find (\<lambda>e. name e = y) c = None)"
  proof
    assume ra: "reachable c \<and> acyclic (set (requirement_edges c))"
    then have "\<And>b. \<exists>N. \<forall>stack\<ge>N. \<forall>m agg tot.
            gather_loop stack c (required_items c b) m agg tot \<noteq> Inl RangeError"
      using acyclic_bounded by blast
    from gather_loop_bounded [of its c, OF this] obtain N where
      N: "\<forall>stack\<ge>N. \<forall>m agg tot. gather_loop stack c its m agg tot \<noteq> Inl RangeError"
      by blast
    have "\<exists>y. gatherRecipeData deep c ?rec 1 [] = Inl (Missing_item y)
              \<and> find (\<lambda>e. name e = y) c = None" if "N \<le> deep" for deep
    proof -
      from fail [of deep 1 "[]"] obtain err where err: "gather_loop deep c its 1 [] 0 = Inl err" ..
      then have "err \<noteq> RangeError" using N that by auto
      with kind [OF err] ra err show ?thesis by (auto simp: gatherRecipeData_def)
    qed
    then show "\<exists>N. \<forall>deep\<ge>N. \<exists>y. gatherRecipeData deep c ?rec 1 [] = Inl (Missing_item y)
                                  \<and> find (\<lambda>e. name e = y) c = None"
      by blast
  qed
  from f 1 2 show "\<exists>rec. find (\<lambda>e. name e = n) c = Some rec
               \<and> (\<forall>m agg. \<exists>err. gatherRecipeData stack c rec m agg = Inl err
                      \<and> (reachable c \<and> err \<noteq> RangeError
                           \<longrightarrow> (\<exists>y. err = Missing_item y \<and> find (\<lambda>e. name e = y) c = None)))
               \<and> (reachable c \<and> acyclic (set (requirement_edges c))
                     \<longrightarrow> (\<exists>N. \<forall>deep\<ge>N. \<exists>y. gatherRecipeData deep c rec 1 [] = Inl (Missing_item y)
                                  \<and> find (\<lambda>e. name e = y) c = None))"
    by blast
qed

theorem getSummary_rejects_witness:
  "reachable [Flour, Soup]
   \<and> acyclic (set (requirement_edges [Flour, Soup]))
   \<and> getSummary 4 [Flour, Soup] (Some (JStr ''Cake'')) = (Status 400, [Flour, Soup])
   \<and> getSummary 4 [Flour, Soup] (Some (JStr ''Flour'')) = (Status 400, [Flour, Soup])
   \<and> (''Soup'', ''Water'') \<in> (set (requirement_edges [Flour, Soup]))\<^sup>+
   \<and> find (\<lambda>e. name e = ''Water'') [Flour, Soup] = None
   \<and> getSummary 4 [Flour, Soup] (Some (JStr ''Soup'')) = (Status 400, [Flour, Soup])
   \<and> gatherRecipeData 4 [Flour, Soup] Soup 1 [] = Inl (Missing_item ''Water'')
   \<and> (\<exists>N. \<forall>deep\<ge>N. \<exists>y. gatherRecipeData deep [Flour, Soup] Soup 1 [] = Inl (Missing_item y)
                           \<and> find (\<lambda>e. name e = y) [Flour, Soup] = None)"
proof -
  let ?c = "[Flour, Soup]"
  let ?flour = "[(''type'', JStr ''ingredient''), (''name'', JStr ''Flour''), (''cookTime'', JNum 2)]"
  let ?soup = "[(''type'', JStr ''recipe''), (''name'', JStr ''Soup''),
     (''requiredItems'', JArr [JObj [(''name'', JStr ''Flour''), (''quantity'', JNum 1)],
                               JObj [(''name'', JStr ''Water''), (''quantity'', JNum 3)]])]"
  have 1: "snd (postEntry [] ?flour) = [Flour]" by code_simp
  have 2: "snd (postEntry [Flour] ?soup) = ?c" by code_simp
  have "reachable [Flour]" using reachable.posted [OF reachable.initial, of ?flour] 1 by simp
  then have r: "reachable ?c" using reachable.posted [of "[Flour]" ?soup] 2 by simp
  have cake: "find (\<lambda>e. name e = ''Cake'') ?c = None" by code_simp
  have flour: "find (\<lambda>e. name e = ''Flour'') ?c = Some Flour \<and> type Flour = ''ingredient''"
    by code_simp
  have soup: "find (\<lambda>e. name e = ''Soup'') ?c = Some Soup" by code_simp
  have water: "find (\<lambda>e. name e = ''Water'') ?c = None" by code_simp
  have edges: "requirement_edges ?c = [(''Soup'', ''Flour''), (''Soup'', ''Water'')]" by code_simp
  then have edge: "(''Soup'', ''Water'') \<in> (set (requirement_edges ?c))\<^sup>+" by auto
  have ac: "acyclic (set (requirement_edges ?c))"
    unfolding edges
    by (rule acyclicI_order [where f = "\<lambda>s. if s = ''Soup'' then 1 else (0::nat)"]) auto
  have thrown: "gatherRecipeData 4 ?c Soup 1 [] = Inl (Missing_item ''Water'')" by code_simp
  have a: "getSummary 4 ?c (Some (JStr ''Cake'')) = (Status 400, ?c)"
    using getSummary_rejects [of "''Cake''" ?c 4] cake by blast
  have b: "getSummary 4 ?c (Some (JStr ''Flour'')) = (Status 400, ?c)"
    using getSummary_rejects [of "''Flour''" ?c 4] flour by blast
  have d: "getSummary 4 ?c (Some (JStr ''Soup'')) = (Status 400, ?c)"
    using getSummary_rejects [of "''Soup''" ?c 4] edge water by blast
  have e: "\<exists>N. \<forall>deep\<ge>N. \<exists>y. gatherRecipeData deep ?c Soup 1 [] = Inl (Missing_item y)
                           \<and> find (\<lambda>e. name e = y) ?c = None"
  proof -
    from getSummary_rejects [of "''Soup''" ?c 4] edge water obtain rec where
      rec: "find (\<lambda>e. name e = ''Soup'') ?c = Some rec" and
      imp: "reachable ?c \<and> acyclic (set (requirement_edges ?c))
         \<longrightarrow> (\<exists>N. \<forall>deep\<ge>N. \<exists>y. gatherRecipeData deep ?c rec 1 [] = Inl (Missing_item y)
                                  \<and> find (\<lambda>e. name e = y) ?c = None)"
      by blast
    from rec soup have "rec = Soup" by (simp only: option.inject)
    with imp r ac show ?thesis by blast
  qed
  from r ac a b d edge water thrown e show ?thesis by blast
qed

subsection \<open>The tags of the stored entries\<close>

text \<open>
  C8. Every entry of a reachable cookbook carries the tag \<^verbatim>\<open>"ingredient"\<close> or the
  tag \<^verbatim>\<open>"recipe"\<close>, and so no call of \<^verbatim>\<open>gatherRecipeData\<close> on it, at any depth, for
  any recipe or list of requirement lines, takes the branch of lines 227 to 230 that
  throws the error of an invalid type.
\<close>

theorem invalid_type_unreachable:
  assumes "reachable c"
  shows "(\<forall>e\<in>set c. type e = ''ingredient'' \<or> type e = ''recipe'')
     \<and> (\<forall>stack rec m agg t n. gatherRecipeData stack c rec m agg \<noteq> Inl (Invalid_type t n))
     \<and> (\<forall>stack items m agg tot t n.
           gather_loop stack c items m agg tot \<noteq> Inl (Invalid_type t n))"
proof -
  have "list_all well_formed c" using reachable_invariant [OF assms] by simp
  then have tags: "\<forall>e\<in>set c. type e = ''ingredient'' \<or> type e = ''recipe''"
    using well_formed_tag by (auto simp: list_all_iff)
  have loop: "gather_loop stack c items m agg tot \<noteq> Inl (Invalid_type t n)"
    for stack items m agg tot t n
    using reachable_shape [OF assms, of stack items m agg tot "Invalid_type t n"] by auto
  have "gatherRecipeData stack c rec m agg \<noteq> Inl (Invalid_type t n)" for stack rec m agg t n
    using loop by (cases rec) (simp_all add: gatherRecipeData_def)
  with tags loop show ?thesis by blast
qed

theorem invalid_type_unreachable_witness:
  "reachable example_cookbook
   \<and> list_all (\<lambda>e. type e = ''ingredient'' \<or> type e = ''recipe'') example_cookbook
   \<and> (\<forall>t n. gatherRecipeData 2 example_cookbook Bread 1 [] \<noteq> Inl (Invalid_type t n))"
  using reachable_example invalid_type_unreachable [OF reachable_example]
  unfolding list_all_iff by blast

section \<open>Properties of \<^verbatim>\<open>GET /summary\<close>\<close>

text \<open>
  C10. A recipe with the empty array for \<^verbatim>\<open>requiredItems\<close>, a name that is not empty
  and not in the cookbook, is stored; the summary of its name is then cook time 0 and
  no ingredients.
\<close>

theorem empty_recipe_summary:
  assumes "map_of entry ''type'' = Some (JStr ''recipe'')"
    and "map_of entry ''name'' = Some (JStr n)" and "n \<noteq> []"
    and "\<not> list_ex (\<lambda>e. name e = n) c"
    and "map_of entry ''requiredItems'' = Some (JArr [])"
  shows "postEntry c entry = (Status 200, c @ [Recipe n ''recipe'' []])
     \<and> getSummary stack (c @ [Recipe n ''recipe'' []]) (Some (JStr n))
         = (Json_summary n 0 [], c @ [Recipe n ''recipe'' []])"
proof -
  have p: "postEntry c entry = (Status 200, c @ [Recipe n ''recipe'' []])"
    using assms unfolding postEntry_def by simp
  have f: "find (\<lambda>e. name e = n) (c @ [Recipe n ''recipe'' []]) = Some (Recipe n ''recipe'' [])"
    using find_append_fresh [OF assms(4)] by simp
  have "getSummary stack (c @ [Recipe n ''recipe'' []]) (Some (JStr n))
         = (Json_summary n 0 [], c @ [Recipe n ''recipe'' []])"
    using assms(3) f by (simp add: getSummary_def gatherRecipeData_def Object_entries_def)
  with p show ?thesis by simp
qed

theorem empty_recipe_summary_witness:
  "postEntry [Flour] [(''type'', JStr ''recipe''), (''name'', JStr ''Air''),
                      (''requiredItems'', JArr [])]
     = (Status 200, [Flour] @ [Recipe ''Air'' ''recipe'' []])
   \<and> getSummary 0 ([Flour] @ [Recipe ''Air'' ''recipe'' []]) (Some (JStr ''Air''))
     = (Json_summary ''Air'' 0 [], [Flour] @ [Recipe ''Air'' ''recipe'' []])"
  using empty_recipe_summary [of "[(''type'', JStr ''recipe''), (''name'', JStr ''Air''),
                      (''requiredItems'', JArr [])]" "''Air''" "[Flour]" 0]
  by (simp add: Flour_def)

lemma getSummary_recipe:
  assumes "nm \<noteq> []" and "find (\<lambda>e. name e = nm) c = Some rec" and "type rec = ''recipe''"
  shows "getSummary stack c (Some (JStr nm))
     = (case gatherRecipeData stack c rec 1 [] of
          Inl err \<Rightarrow> (Status 400, c)
        | Inr (totalCookTime, aggregated) \<Rightarrow>
            (Json_summary (name rec) totalCookTime (Object_entries aggregated), c))"
  using assms by (simp add: getSummary_def)

lemma getSummary_400:
  assumes "\<not> (\<exists>nm rec. q = Some (JStr nm) \<and> nm \<noteq> []
              \<and> find (\<lambda>e. name e = nm) c = Some rec \<and> type rec = ''recipe'')"
  shows "getSummary stack c q = (Status 400, c)"
proof (cases q)
  case None
  then show ?thesis by (simp add: getSummary_def)
next
  case (Some j)
  show ?thesis
  proof (cases j)
    case (JStr nm)
    show ?thesis
    proof (cases "nm = []")
      case True
      then show ?thesis using Some JStr by (simp add: getSummary_def)
    next
      case False
      show ?thesis
      proof (cases "find (\<lambda>e. name e = nm) c")
        case None
        then show ?thesis using Some JStr False by (simp add: getSummary_def)
      next
        case (Some rec)
        then have "type rec \<noteq> ''recipe''" using assms \<open>q = Some j\<close> JStr False by simp
        then show ?thesis using Some \<open>q = Some j\<close> JStr False by (simp add: getSummary_def)
      qed
    qed
  qed (simp_all add: Some getSummary_def)
qed

lemma getSummary_snd: "snd (getSummary stack c q) = c"
proof (cases "\<exists>nm rec. q = Some (JStr nm) \<and> nm \<noteq> []
              \<and> find (\<lambda>e. name e = nm) c = Some rec \<and> type rec = ''recipe''")
  case False
  then show ?thesis by (simp add: getSummary_400)
next
  case True
  then obtain nm rec where q: "q = Some (JStr nm)" and
    f: "nm \<noteq> []" "find (\<lambda>e. name e = nm) c = Some rec" "type rec = ''recipe''"
    by blast
  show ?thesis unfolding q getSummary_recipe [OF f]
    by (cases "gatherRecipeData stack c rec 1 []") (simp_all split: prod.splits)
qed

lemma gatherRecipeData_mono:
  assumes "gatherRecipeData stack c rec m agg = Inr r" and "stack \<le> stack'"
  shows "gatherRecipeData stack' c rec m agg = Inr r"
proof (cases rec)
  case (Ingredient a b d)
  then show ?thesis using assms by (simp add: gatherRecipeData_def)
next
  case (Recipe a b items)
  have "gather_loop stack c items m agg 0 = Inr r"
    using assms(1) Recipe by (simp add: gatherRecipeData_def)
  from gather_loop_mono [OF this _ assms(2)] show ?thesis
    using Recipe by (simp add: gatherRecipeData_def)
qed

lemma getSummary_stack:
  assumes "fst (getSummary stack c q) = Json_summary n cookTime ingredients"
    and "stack \<le> stack'"
  shows "getSummary stack' c q = getSummary stack c q"
proof (cases "\<exists>nm rec. q = Some (JStr nm) \<and> nm \<noteq> []
              \<and> find (\<lambda>e. name e = nm) c = Some rec \<and> type rec = ''recipe''")
  case False
  then show ?thesis by (simp add: getSummary_400)
next
  case True
  then obtain nm rec where q: "q = Some (JStr nm)" and
    f: "nm \<noteq> []" "find (\<lambda>e. name e = nm) c = Some rec" "type rec = ''recipe''"
    by blast
  show ?thesis
  proof (cases "gatherRecipeData stack c rec 1 []")
    case (Inl err)
    then have "getSummary stack c q = (Status 400, c)"
      unfolding q getSummary_recipe [OF f] by simp
    then show ?thesis using assms(1) by simp
  next
    case (Inr r)
    from gatherRecipeData_mono [OF Inr assms(2)] Inr show ?thesis
      unfolding q getSummary_recipe [OF f] by simp
  qed
qed

text \<open>
  C7. \<^verbatim>\<open>GET /summary\<close> leaves the cookbook as it was, so a second request with the
  same name on the cookbook it leaves gets the same answer; and a summary, once
  returned, does not depend on the room of the stack either.
\<close>

theorem getSummary_read_only:
  "snd (getSummary stack c q) = c
   \<and> getSummary stack (snd (getSummary stack c q)) q = getSummary stack c q
   \<and> (\<forall>stack' n cookTime ingredients.
        fst (getSummary stack c q) = Json_summary n cookTime ingredients \<and> stack \<le> stack'
          \<longrightarrow> getSummary stack' c q = getSummary stack c q)"
proof (intro conjI allI impI)
  show "snd (getSummary stack c q) = c" by (rule getSummary_snd)
  show "getSummary stack (snd (getSummary stack c q)) q = getSummary stack c q"
    by (simp add: getSummary_snd)
  fix stack' n cookTime ingredients
  assume "fst (getSummary stack c q) = Json_summary n cookTime ingredients \<and> stack \<le> stack'"
  then show "getSummary stack' c q = getSummary stack c q"
    using getSummary_stack by blast
qed

theorem getSummary_read_only_witness:
  "snd (getSummary 1 example_cookbook (Some (JStr ''Bread''))) = example_cookbook
   \<and> fst (getSummary 1 example_cookbook (Some (JStr ''Bread'')))
       = Json_summary ''Bread'' 6 [(''Flour'', Num 3)]
   \<and> getSummary 7 example_cookbook (Some (JStr ''Bread''))
       = getSummary 1 example_cookbook (Some (JStr ''Bread''))"
proof -
  let ?q = "Some (JStr ''Bread'')"
  have s: "fst (getSummary 1 example_cookbook ?q) = Json_summary ''Bread'' 6 [(''Flour'', Num 3)]"
    by code_simp
  have le: "(1::nat) \<le> 7" by simp
  note t = getSummary_read_only [of 1 example_cookbook ?q]
  from t have a: "snd (getSummary 1 example_cookbook ?q) = example_cookbook" by blast
  from t s le have b: "getSummary 7 example_cookbook ?q = getSummary 1 example_cookbook ?q"
    by blast
  from a s b show ?thesis by blast
qed

subsection \<open>The summary is the sum over the paths\<close>

lemma paths_list_None:
  "find (\<lambda>e. name e = requiredItem.name x) c = None \<Longrightarrow>
     paths_list s c (x # xs) = paths_list s c xs"
  by simp

lemma paths_list_Ingredient:
  "find (\<lambda>e. name e = requiredItem.name x) c = Some (Ingredient n ''ingredient'' ct) \<Longrightarrow>
     paths_list s c (x # xs) = [x] # paths_list s c xs"
  by simp

lemma paths_list_Recipe:
  "find (\<lambda>e. name e = requiredItem.name x) c = Some (Recipe n ''recipe'' its) \<Longrightarrow>
     paths_list (Suc d) c (x # xs) = map ((#) x) (paths_list d c its) @ paths_list (Suc d) c xs"
  by simp

declare paths_list.simps(2) [simp del]

lemma paths_list_other:
  assumes "find (\<lambda>e. name e = requiredItem.name x) c = Some e"
    and "\<forall>n ct. e \<noteq> Ingredient n ''ingredient'' ct" and "\<forall>n its. e \<noteq> Recipe n ''recipe'' its"
  shows "paths_list s c (x # xs) = paths_list s c xs"
  using assms by (cases e) (auto simp: paths_list.simps(2))

lemma paths_list_Recipe_0:
  "find (\<lambda>e. name e = requiredItem.name x) c = Some (Recipe n ''recipe'' its) \<Longrightarrow>
     paths_list 0 c (x # xs) = paths_list 0 c xs"
  by (simp add: paths_list.simps(2))

lemma path_mono: "path c items p \<Longrightarrow> set items \<subseteq> set items' \<Longrightarrow> path c items' p"
  by (induction rule: path.cases) (auto intro: path.intros)

lemma path_not_Nil: "path c items p \<Longrightarrow> p \<noteq> []"
  by (auto elim: path.cases)

lemma found_cases:
  obtains (missing) "find (\<lambda>e. name e = requiredItem.name x) c = None"
  | (ingredient) n ct where
      "find (\<lambda>e. name e = requiredItem.name x) c = Some (Ingredient n ''ingredient'' ct)"
  | (recipe) n its where
      "find (\<lambda>e. name e = requiredItem.name x) c = Some (Recipe n ''recipe'' its)"
  | (other) e where "find (\<lambda>e. name e = requiredItem.name x) c = Some e"
      "\<forall>n ct. e \<noteq> Ingredient n ''ingredient'' ct" "\<forall>n its. e \<noteq> Recipe n ''recipe'' its"
  by (cases "find (\<lambda>e. name e = requiredItem.name x) c") blast+

lemma paths_list_sound: "p \<in> set (paths_list s c items) \<Longrightarrow> path c items p"
proof (induction s arbitrary: items p)
  case 0
  then show ?case
  proof (induction items)
    case Nil
    then show ?case by simp
  next
    case (Cons x xs)
    show ?case
    proof (cases x c rule: found_cases)
      case missing
      with Cons show ?thesis by (auto simp: paths_list_None intro: path_mono)
    next
      case (ingredient n ct)
      with Cons show ?thesis
        by (auto simp: paths_list_Ingredient intro: path_mono path.leaf)
    next
      case (recipe n its)
      with Cons show ?thesis by (auto simp: paths_list_Recipe_0 intro: path_mono)
    next
      case (other e)
      with Cons show ?thesis by (auto simp: paths_list_other intro: path_mono)
    qed
  qed
next
  case (Suc d)
  from Suc.prems show ?case
  proof (induction items)
    case Nil
    then show ?case by simp
  next
    case (Cons x xs)
    show ?case
    proof (cases x c rule: found_cases)
      case missing
      with Cons show ?thesis by (auto simp: paths_list_None intro: path_mono)
    next
      case (ingredient n ct)
      with Cons show ?thesis
        by (auto simp: paths_list_Ingredient intro: path_mono path.leaf)
    next
      case (recipe n its)
      with Cons Suc.IH show ?thesis
        by (auto simp: paths_list_Recipe intro: path_mono path.node)
    next
      case (other e)
      with Cons show ?thesis by (auto simp: paths_list_other intro: path_mono)
    qed
  qed
qed

lemma paths_list_not_Nil: "p \<in> set (paths_list s c items) \<Longrightarrow> p \<noteq> []"
  using paths_list_sound path_not_Nil by blast

lemma cook_sum_simps:
  "cook_sum c [] = 0"
  "cook_sum c (p # ps) = cook_of c (requiredItem.name (last p)) * contribution p + cook_sum c ps"
  "cook_sum c (ps @ qs) = cook_sum c ps + cook_sum c qs"
  by (simp_all add: cook_sum_def)

lemma qty_sum_simps:
  "qty_sum g [] = 0"
  "qty_sum g (p # ps) = (if requiredItem.name (last p) = g then contribution p else 0) + qty_sum g ps"
  "qty_sum g (ps @ qs) = qty_sum g ps + qty_sum g qs"
  by (simp_all add: qty_sum_def)

lemma cook_sum_Cons:
  assumes "\<forall>p\<in>set ps. p \<noteq> []"
  shows "cook_sum c (map ((#) x) ps) = quantity x * cook_sum c ps"
  using assms by (induction ps) (simp_all add: cook_sum_simps contribution_def algebra_simps)

lemma qty_sum_Cons:
  assumes "\<forall>p\<in>set ps. p \<noteq> []"
  shows "qty_sum g (map ((#) x) ps) = quantity x * qty_sum g ps"
  using assms by (induction ps) (simp_all add: qty_sum_simps contribution_def algebra_simps)

lemma update_list_all: "P (k, v) \<Longrightarrow> list_all P al \<Longrightarrow> list_all P (AList.update k v al)"
  by (induction al) auto

lemma numeric_map_of:
  assumes "numeric obj" and "map_of obj k = Some v"
  shows "\<exists>n. v = Num n"
proof -
  have "(k, v) \<in> set obj" using assms(2) by (rule map_of_SomeD)
  then have "case v of Num n \<Rightarrow> True | Str s \<Rightarrow> False"
    using assms(1) by (auto simp: numeric_def list_all_iff)
  then show ?thesis by (cases v) auto
qed

lemma add_quantity_numeric:
  assumes "numeric agg" and "Object_prototype k = None"
  shows "numeric (add_quantity agg k q)"
    and "qty (add_quantity agg k q) g = qty agg g + (if g = k then q else 0)"
    and "fst ` set (add_quantity agg k q) = insert k (fst ` set agg)"
proof -
  have k: "k \<noteq> ''__proto__''" using assms(2) by (auto simp: Object_prototype_def)
  have eq: "add_quantity agg k q = AList.update k (Num (qty agg k + q)) agg"
  proof (cases "map_of agg k")
    case None
    then show ?thesis using k assms(2) by (simp add: add_quantity_def qty_def)
  next
    case (Some v)
    with numeric_map_of [OF assms(1) Some] show ?thesis
      using k by (auto simp: add_quantity_def qty_def)
  qed
  show "numeric (add_quantity agg k q)"
    using assms(1) unfolding eq numeric_def by (simp add: distinct_update update_list_all)
  show "qty (add_quantity agg k q) g = qty agg g + (if g = k then q else 0)"
    unfolding eq by (simp add: qty_def update_conv')
  show "fst ` set (add_quantity agg k q) = insert k (fst ` set agg)"
    unfolding eq by (simp add: dom_update)
qed

lemma last_image_Cons:
  assumes "\<forall>p\<in>set ps. p \<noteq> []"
  shows "(\<lambda>p. f (last p)) ` set (map ((#) x) ps) = (\<lambda>p. f (last p)) ` set ps"
  using assms by (auto simp: image_iff)

lemma gather_loop_sums:
  assumes wf: "list_all well_formed c"
    and proto: "\<forall>e\<in>set c. Object_prototype (name e) = None"
  shows "gather_loop s c items m agg tot = Inr (T, A) \<Longrightarrow> numeric agg \<Longrightarrow>
      numeric A \<and> T = tot + m * cook_sum c (paths_list s c items)
      \<and> (\<forall>g. qty A g = qty agg g + m * qty_sum g (paths_list s c items))
      \<and> fst ` set A = fst ` set agg
            \<union> (\<lambda>p. requiredItem.name (last p)) ` set (paths_list s c items)"
  using wf proto
proof (induction s c items m agg tot arbitrary: T A rule: gather_loop.induct)
  case (1 stack c multiplier aggregated totalCookTime)
  then show ?case by (simp add: cook_sum_simps qty_sum_simps)
next
  case (2 stack c x rest m agg tot)
  let ?f = "find (\<lambda>e. name e = requiredItem.name x) c"
  let ?key = "\<lambda>p. requiredItem.name (last p)"
  note wf = "2.prems"(3) and proto = "2.prems"(4)
  show ?case
  proof (cases ?f)
    case None
    then show ?thesis using "2.prems"(1) by (simp add: gather_loop_None)
  next
    case (Some referenced)
    from wf Some show ?thesis
    proof (cases rule: well_formed_found)
      case (ing n ct)
      have f: "?f = Some (Ingredient n ''ingredient'' ct)" using Some ing by simp
      from find_SomeD [OF f] have n: "n = requiredItem.name x"
        and p: "Object_prototype n = None" using proto by auto
      let ?agg1 = "add_quantity agg n (quantity x * m)"
      have rest: "gather_loop stack c rest m ?agg1 (tot + ct * (quantity x * m)) = Inr (T, A)"
        using "2.prems"(1) by (simp add: gather_loop_Ingredient [OF f])
      note a = add_quantity_numeric [OF "2.prems"(2) p, of "quantity x * m"]
      from "2.IH"(1) [OF Some _ ing rest a(1) wf proto] ing
      have ih: "numeric A"
        "T = tot + ct * (quantity x * m) + m * cook_sum c (paths_list stack c rest)"
        "\<And>g. qty A g = qty ?agg1 g + m * qty_sum g (paths_list stack c rest)"
        "fst ` set A = fst ` set ?agg1 \<union> ?key ` set (paths_list stack c rest)"
        by simp_all
      have pl: "paths_list stack c (x # rest) = [x] # paths_list stack c rest"
        by (rule paths_list_Ingredient [OF f])
      have ck: "cook_of c (requiredItem.name x) = ct" using f by (simp add: cook_of_def)
      have 1: "T = tot + m * cook_sum c (paths_list stack c (x # rest))"
        unfolding pl ih(2) by (simp add: cook_sum_simps contribution_def ck algebra_simps)
      have 2: "qty A g = qty agg g + m * qty_sum g (paths_list stack c (x # rest))" for g
        using ih(3) [of g] a(2) [of g]
        by (simp add: pl n qty_sum_simps contribution_def algebra_simps)
      have 3: "fst ` set A = fst ` set agg \<union> ?key ` set (paths_list stack c (x # rest))"
        using ih(4) a(3) by (simp add: pl n insert_commute Un_commute)
      from ih(1) 1 2 3 show ?thesis by blast
    next
      case (rec n its)
      have f: "?f = Some (Recipe n ''recipe'' its)" using Some rec by simp
      have t: "type referenced \<noteq> ''ingredient''" "type referenced = ''recipe''" using rec by simp_all
      obtain d where d: "stack = Suc d"
        using "2.prems"(1) gather_loop_overflow [OF Some t(2)] by (cases stack) auto
      obtain sub agg' where
        nested: "gather_loop d c its (quantity x * m) agg 0 = Inr (sub, agg')" and
        rest: "gather_loop stack c rest m agg' (tot + sub) = Inr (T, A)"
        using "2.prems"(1) unfolding d gather_loop_Recipe [OF f]
        by (auto split: sum.splits)
      from "2.IH"(2) [OF Some t d rec nested "2.prems"(2) wf proto]
      have ih1: "numeric agg'"
        "sub = quantity x * m * cook_sum c (paths_list d c its)"
        "\<And>g. qty agg' g = qty agg g + quantity x * m * qty_sum g (paths_list d c its)"
        "fst ` set agg' = fst ` set agg \<union> ?key ` set (paths_list d c its)"
        by simp_all
      from "2.IH"(3) [OF Some t d rec nested _ rest ih1(1) wf proto]
      have ih2: "numeric A"
        "T = tot + sub + m * cook_sum c (paths_list stack c rest)"
        "\<And>g. qty A g = qty agg' g + m * qty_sum g (paths_list stack c rest)"
        "fst ` set A = fst ` set agg' \<union> ?key ` set (paths_list stack c rest)"
        by simp_all
      have ne: "\<forall>p\<in>set (paths_list d c its). p \<noteq> []" using paths_list_not_Nil by blast
      have pl: "paths_list stack c (x # rest)
          = map ((#) x) (paths_list d c its) @ paths_list stack c rest"
        unfolding d by (rule paths_list_Recipe [OF f])
      have 1: "T = tot + m * cook_sum c (paths_list stack c (x # rest))"
        unfolding pl ih2(2) ih1(2)
        by (simp add: cook_sum_simps cook_sum_Cons [OF ne] algebra_simps)
      have 2: "qty A g = qty agg g + m * qty_sum g (paths_list stack c (x # rest))" for g
        unfolding pl ih2(3) ih1(3)
        by (simp add: qty_sum_simps qty_sum_Cons [OF ne] algebra_simps)
      have 3: "fst ` set A = fst ` set agg \<union> ?key ` set (paths_list stack c (x # rest))"
        unfolding pl ih2(4) ih1(4) using last_image_Cons [OF ne, of requiredItem.name x]
        by (simp add: image_Un Un_assoc)
      from ih2(1) 1 2 3 show ?thesis by blast
    qed
  qed
qed

lemma paths_list_tail: "set (paths_list s c xs) \<subseteq> set (paths_list s c (x # xs))"
  by (simp add: paths_list.simps(2))

lemma path_hd: "path c items p \<Longrightarrow> hd p \<in> set items"
  by (auto elim: path.cases)

lemma path_Cons_cases:
  assumes "path c (x # rest) p"
  obtains (tail) "path c rest p"
    | (leaf) n ct where "p = [x]"
        "find (\<lambda>e. name e = requiredItem.name x) c = Some (Ingredient n ''ingredient'' ct)"
    | (node) n its p' where "p = x # p'"
        "find (\<lambda>e. name e = requiredItem.name x) c = Some (Recipe n ''recipe'' its)"
        "path c its p'"
  using assms
proof (cases rule: path.cases)
  case (leaf y n ct)
  show ?thesis
  proof (cases "y = x")
    case True
    then show ?thesis using leaf that(2) by simp
  next
    case False
    then have "y \<in> set rest" using leaf by simp
    then have "path c rest p" using leaf by (auto intro: path.leaf)
    then show ?thesis by (rule that(1))
  qed
next
  case (node y n its p')
  show ?thesis
  proof (cases "y = x")
    case True
    then show ?thesis using node that(3) by simp
  next
    case False
    then have "y \<in> set rest" using node by simp
    then have "path c rest p" using node by (auto intro: path.node)
    then show ?thesis by (rule that(1))
  qed
qed

lemma paths_list_complete:
  "gather_loop s c items m agg tot = Inr r \<Longrightarrow> path c items p
     \<Longrightarrow> p \<in> set (paths_list s c items)"
proof (induction s c items m agg tot arbitrary: r p rule: gather_loop.induct)
  case (1 stack c multiplier aggregated totalCookTime)
  then show ?case by (auto elim: path.cases)
next
  case (2 stack c x rest m agg tot)
  let ?f = "find (\<lambda>e. name e = requiredItem.name x) c"
  show ?case
  proof (cases ?f)
    case None
    then show ?thesis using "2.prems"(1) by (simp add: gather_loop_None)
  next
    case (Some referenced)
    consider (ing) n ct where "referenced = Ingredient n ''ingredient'' ct"
      | (bad1) n its where "referenced = Recipe n ''ingredient'' its"
      | (rec) n its where "referenced = Recipe n ''recipe'' its"
      | (bad2) n ct where "referenced = Ingredient n ''recipe'' ct"
      | (inv) "type referenced \<noteq> ''ingredient''" "type referenced \<noteq> ''recipe''"
      by (cases referenced) auto
    then show ?thesis
    proof cases
      case ing
      have f: "?f = Some (Ingredient n ''ingredient'' ct)" using Some ing by simp
      have rest: "gather_loop stack c rest m (add_quantity agg n (quantity x * m))
               (tot + ct * (quantity x * m)) = Inr r"
        using "2.prems"(1) by (simp add: gather_loop_Ingredient [OF f])
      from "2.prems"(2) show ?thesis
      proof (cases rule: path_Cons_cases)
        case tail
        from "2.IH"(1) [OF Some _ ing rest tail] ing
        have "p \<in> set (paths_list stack c rest)" by simp
        then show ?thesis using paths_list_tail [of stack c rest x] by blast
      next
        case (leaf n' ct')
        then show ?thesis by (simp add: paths_list_Ingredient [OF f])
      next
        case (node n' its p')
        then show ?thesis using f by simp
      qed
    next
      case bad1
      have f: "?f = Some (Recipe n ''ingredient'' its)" using Some bad1 by simp
      show ?thesis using "2.prems"(1) by (simp add: gather_loop_no_cookTime [OF f])
    next
      case inv
      show ?thesis using "2.prems"(1) by (simp add: gather_loop_Invalid [OF Some inv])
    next
      case bad2
      have f: "?f = Some (Ingredient n ''recipe'' ct)" using Some bad2 by simp
      have t: "type referenced = ''recipe''" using bad2 by simp
      show ?thesis using "2.prems"(1) gather_loop_overflow [OF Some t] gather_loop_no_items [OF f]
        by (cases stack) auto
    next
      case rec
      have f: "?f = Some (Recipe n ''recipe'' its)" using Some rec by simp
      have t: "type referenced \<noteq> ''ingredient''" "type referenced = ''recipe''" using rec by simp_all
      obtain d where d: "stack = Suc d"
        using "2.prems"(1) gather_loop_overflow [OF Some t(2)] by (cases stack) auto
      obtain sub agg' where
        nested: "gather_loop d c its (quantity x * m) agg 0 = Inr (sub, agg')" and
        rest: "gather_loop stack c rest m agg' (tot + sub) = Inr r"
        using "2.prems"(1) unfolding d gather_loop_Recipe [OF f]
        by (auto split: sum.splits)
      have pl: "paths_list stack c (x # rest)
          = map ((#) x) (paths_list d c its) @ paths_list stack c rest"
        unfolding d by (rule paths_list_Recipe [OF f])
      from "2.prems"(2) show ?thesis
      proof (cases rule: path_Cons_cases)
        case tail
        from "2.IH"(3) [OF Some t d rec nested _ rest tail] show ?thesis
          unfolding pl by simp
      next
        case (leaf n' ct')
        then show ?thesis using f by simp
      next
        case (node n' its' p')
        then have "path c its p'" using f by simp
        from "2.IH"(2) [OF Some t d rec nested this] show ?thesis
          unfolding pl node(1) by simp
      qed
    qed
  qed
qed

lemma paths_list_hd: "p \<in> set (paths_list s c items) \<Longrightarrow> hd p \<in> set items"
  using paths_list_sound path_hd by blast

lemma paths_list_distinct:
  assumes wf: "list_all well_formed c"
  shows "distinct items \<Longrightarrow> distinct (paths_list s c items)"
proof (induction s arbitrary: items)
  case 0
  then show ?case
  proof (induction items)
    case Nil
    then show ?case by simp
  next
    case (Cons x xs)
    have hd: "\<forall>p\<in>set (paths_list 0 c xs). hd p \<noteq> x"
      using paths_list_hd Cons.prems by fastforce
    show ?case
    proof (cases x c rule: found_cases)
      case missing
      with Cons show ?thesis by (simp add: paths_list_None)
    next
      case (ingredient n ct)
      with Cons hd show ?thesis by (auto simp: paths_list_Ingredient)
    next
      case (recipe n its)
      with Cons show ?thesis by (simp add: paths_list_Recipe_0)
    next
      case (other e)
      with Cons show ?thesis by (simp add: paths_list_other)
    qed
  qed
next
  case (Suc d)
  from Suc.prems show ?case
  proof (induction items)
    case Nil
    then show ?case by simp
  next
    case (Cons x xs)
    have hd: "\<forall>p\<in>set (paths_list (Suc d) c xs). hd p \<noteq> x"
      using paths_list_hd Cons.prems by fastforce
    show ?case
    proof (cases x c rule: found_cases)
      case missing
      with Cons show ?thesis by (simp add: paths_list_None)
    next
      case (ingredient n ct)
      with Cons hd show ?thesis by (auto simp: paths_list_Ingredient)
    next
      case (recipe n its)
      have "Recipe n ''recipe'' its \<in> set c" using find_SomeD [OF recipe] by blast
      then have "well_formed (Recipe n ''recipe'' its)"
        using wf by (simp add: list_all_iff)
      then have "distinct its" by (auto simp: well_formed_def distinct_map)
      then have "distinct (map ((#) x) (paths_list d c its))"
        using Suc.IH by (simp add: distinct_map)
      with Cons hd show ?thesis by (auto simp: paths_list_Recipe [OF recipe])
    next
      case (other e)
      with Cons show ?thesis by (simp add: paths_list_other)
    qed
  qed
qed

lemma Object_entries_set: "set (Object_entries obj) = set obj"
  by (auto simp: Object_entries_def)

lemma Object_entries_distinct:
  assumes "distinct (map fst obj)"
  shows "distinct (map fst (Object_entries obj))"
proof -
  from assms have d: "distinct obj" and i: "inj_on fst (set obj)"
    by (simp_all add: distinct_map)
  have "distinct (Object_entries obj)"
    using d by (auto simp: Object_entries_def)
  moreover have "inj_on fst (set (Object_entries obj))"
    using i by (simp add: Object_entries_set)
  ultimately show ?thesis by (simp add: distinct_map)
qed

lemma numeric_set:
  assumes "numeric obj"
  shows "set obj = (\<lambda>g. (g, Num (qty obj g))) ` fst ` set obj"
proof -
  have d: "distinct (map fst obj)" using assms by (simp add: numeric_def)
  have "kv = (fst kv, Num (qty obj (fst kv)))" if "kv \<in> set obj" for kv
  proof -
    obtain k v where kv: "kv = (k, v)" by (cases kv)
    then have m: "map_of obj k = Some v" using that d by simp
    from numeric_map_of [OF assms m] obtain n where "v = Num n" ..
    then show ?thesis using kv m by (simp add: qty_def)
  qed
  then show ?thesis by (auto simp: image_iff)
qed

lemma gather_loop_missing:
  "gather_loop s c items m agg tot = Inl (Missing_item y) \<Longrightarrow>
     \<exists>i\<in>set items. (requiredItem.name i, y) \<in> (set (requirement_edges c))\<^sup>*"
proof (induction s c items m agg tot rule: gather_loop.induct)
  case (1 stack c multiplier aggregated totalCookTime)
  then show ?case by simp
next
  case (2 stack c x rest m agg tot)
  let ?f = "find (\<lambda>e. name e = requiredItem.name x) c"
  show ?case
  proof (cases ?f)
    case None
    then show ?thesis using "2.prems"(1) by (auto simp: gather_loop_None)
  next
    case (Some referenced)
    consider (ing) n ct where "referenced = Ingredient n ''ingredient'' ct"
      | (bad1) n its where "referenced = Recipe n ''ingredient'' its"
      | (rec) n its where "referenced = Recipe n ''recipe'' its"
      | (bad2) n ct where "referenced = Ingredient n ''recipe'' ct"
      | (inv) "type referenced \<noteq> ''ingredient''" "type referenced \<noteq> ''recipe''"
      by (cases referenced) auto
    then show ?thesis
    proof cases
      case ing
      have f: "?f = Some (Ingredient n ''ingredient'' ct)" using Some ing by simp
      have "gather_loop stack c rest m (add_quantity agg n (quantity x * m))
               (tot + ct * (quantity x * m)) = Inl (Missing_item y)"
        using "2.prems"(1) by (simp add: gather_loop_Ingredient [OF f])
      from "2.IH"(1) [OF Some _ ing this] ing show ?thesis by simp
    next
      case bad1
      have f: "?f = Some (Recipe n ''ingredient'' its)" using Some bad1 by simp
      show ?thesis using "2.prems"(1) by (simp add: gather_loop_no_cookTime [OF f])
    next
      case inv
      show ?thesis using "2.prems"(1) by (simp add: gather_loop_Invalid [OF Some inv])
    next
      case bad2
      have f: "?f = Some (Ingredient n ''recipe'' ct)" using Some bad2 by simp
      have t: "type referenced = ''recipe''" using bad2 by simp
      show ?thesis using "2.prems"(1) gather_loop_overflow [OF Some t] gather_loop_no_items [OF f]
        by (cases stack) auto
    next
      case rec
      have f: "?f = Some (Recipe n ''recipe'' its)" using Some rec by simp
      have t: "type referenced \<noteq> ''ingredient''" "type referenced = ''recipe''" using rec by simp_all
      obtain d where d: "stack = Suc d"
        using "2.prems"(1) gather_loop_overflow [OF Some t(2)] by (cases stack) auto
      show ?thesis
      proof (cases "gather_loop d c its (quantity x * m) agg 0")
        case (Inl e)
        then have "e = Missing_item y"
          using "2.prems"(1) unfolding d gather_loop_Recipe [OF f] by simp
        with "2.IH"(2) [OF Some t d rec] Inl obtain i where
          i: "i \<in> set its" "(requiredItem.name i, y) \<in> (set (requirement_edges c))\<^sup>*"
          by auto
        have "(requiredItem.name x, requiredItem.name i) \<in> set (requirement_edges c)"
          using i(1) by (simp add: requirement_edges_iff required_items_Recipe [OF f])
        from this i(2) have "(requiredItem.name x, y) \<in> (set (requirement_edges c))\<^sup>*"
          by (rule converse_rtrancl_into_rtrancl)
        then show ?thesis by auto
      next
        case (Inr b)
        obtain sub agg' where b: "b = (sub, agg')" by (cases b)
        have "gather_loop stack c rest m agg' (tot + sub) = Inl (Missing_item y)"
          using "2.prems"(1) Inr b unfolding d gather_loop_Recipe [OF f] by simp
        from "2.IH"(3) [OF Some t d rec Inr b [symmetric] this] show ?thesis by auto
      qed
    qed
  qed
qed

lemma numeric_Nil: "numeric []"
  by (simp add: numeric_def)

text \<open>
  On a reachable cookbook without a name of \<^verbatim>\<open>Object.prototype\<close>, whose requirement
  graph is acyclic and complete below the recipe, the summary is the sum over the
  paths. The sums and products are those of \<open>int\<close>: the statement carries over to
  the doubles of the code as long as every one of them stays below \<open>2 ^ 53\<close>, and
  says nothing of the rounded values beyond.
\<close>

lemma getSummary_sums_paths:
  assumes r: "reachable c"
    and proto: "\<forall>e\<in>set c. Object_prototype (name e) = None"
    and acyc: "acyclic (set (requirement_edges c))"
    and f: "find (\<lambda>e. name e = nm) c = Some (Recipe nm ''recipe'' items)"
    and present: "\<forall>y. (nm, y) \<in> (set (requirement_edges c))\<^sup>+
                    \<longrightarrow> find (\<lambda>e. name e = y) c \<noteq> None"
  shows "finite {p. path c items p}
   \<and> (\<exists>N ingredients.
        distinct (map fst ingredients)
        \<and> set ingredients
            = (\<lambda>g. (g, Num (\<Sum>p | path c items p \<and> requiredItem.name (last p) = g. contribution p)))
                ` (\<lambda>p. requiredItem.name (last p)) ` {p. path c items p}
        \<and> (\<forall>stack\<ge>N. getSummary stack c (Some (JStr nm))
              = (Json_summary nm
                   (\<Sum>p | path c items p. cook_of c (requiredItem.name (last p)) * contribution p)
                   ingredients, c)))"
proof -
  let ?R = "set (requirement_edges c)"
  let ?key = "\<lambda>p. requiredItem.name (last p)"
  have wf: "list_all well_formed c" using reachable_invariant [OF r] by simp
  have "Recipe nm ''recipe'' items \<in> set c" using find_SomeD [OF f] by blast
  then have "well_formed (Recipe nm ''recipe'' items)" using wf by (simp add: list_all_iff)
  then have nm: "nm \<noteq> []" and di: "distinct items"
    by (auto simp: well_formed_def distinct_map)
  have "\<And>b. \<exists>N. \<forall>stack\<ge>N. \<forall>m agg tot.
            gather_loop stack c (required_items c b) m agg tot \<noteq> Inl RangeError"
    by (rule acyclic_bounded [OF acyc])
  from gather_loop_bounded [of items c, OF this] obtain N where
    N: "\<forall>stack\<ge>N. \<forall>m agg tot. gather_loop stack c items m agg tot \<noteq> Inl RangeError"
    by blast
  let ?ps = "paths_list N c items"
  have no_error: "gather_loop N c items 1 [] 0 \<noteq> Inl err" for err
  proof
    assume e: "gather_loop N c items 1 [] 0 = Inl err"
    then have "err \<noteq> RangeError" using N by auto
    with gather_loop_thrown [OF e wf] obtain y where
      y: "err = Missing_item y" "find (\<lambda>e. name e = y) c = None" by auto
    from gather_loop_missing [OF e [unfolded y(1)]] obtain i where
      i: "i \<in> set items" "(requiredItem.name i, y) \<in> ?R\<^sup>*" by auto
    have "(nm, requiredItem.name i) \<in> ?R"
      using i(1) by (simp add: requirement_edges_iff required_items_Recipe [OF f])
    from this i(2) have "(nm, y) \<in> ?R\<^sup>+" by (rule rtrancl_into_trancl2)
    with present y(2) show False by blast
  qed
  then obtain T A where res: "gather_loop N c items 1 [] 0 = Inr (T, A)"
    by (cases "gather_loop N c items 1 [] 0") auto
  from gather_loop_sums [OF wf proto res numeric_Nil]
  have A: "numeric A" and T: "T = cook_sum c ?ps"
    and q: "\<And>g. qty A g = qty_sum g ?ps"
    and keys: "fst ` set A = ?key ` set ?ps"
    by (simp_all add: qty_def)
  have paths: "set ?ps = {p. path c items p}"
    using paths_list_sound paths_list_complete [OF res] by blast
  have dp: "distinct ?ps" by (rule paths_list_distinct [OF wf di])
  have fin: "finite {p. path c items p}" unfolding paths [symmetric] by simp
  have T': "T = (\<Sum>p | path c items p. cook_of c (requiredItem.name (last p)) * contribution p)"
    unfolding T cook_sum_def paths [symmetric] using dp
    by (simp add: sum_list_distinct_conv_sum_set)
  have q': "qty A g = (\<Sum>p | path c items p \<and> requiredItem.name (last p) = g. contribution p)"
    for g
  proof -
    have "{p. path c items p \<and> requiredItem.name (last p) = g}
        = set (filter (\<lambda>p. requiredItem.name (last p) = g) ?ps)"
      using paths by auto
    then show ?thesis unfolding q qty_sum_def using dp
      by (simp add: sum_list_distinct_conv_sum_set)
  qed
  let ?ingredients = "Object_entries A"
  have 1: "distinct (map fst ?ingredients)"
    using A by (intro Object_entries_distinct) (simp add: numeric_def)
  have 2: "set ?ingredients
      = (\<lambda>g. (g, Num (\<Sum>p | path c items p \<and> requiredItem.name (last p) = g. contribution p)))
          ` ?key ` {p. path c items p}"
    unfolding Object_entries_set paths [symmetric] keys [symmetric]
    using numeric_set [OF A] q' by simp
  have 3: "getSummary stack c (Some (JStr nm)) = (Json_summary nm T ?ingredients, c)"
    if "N \<le> stack" for stack
  proof -
    have "gather_loop stack c items 1 [] 0 = Inr (T, A)"
      using gather_loop_mono [OF res _ that] by simp
    then show ?thesis
      using getSummary_recipe [OF nm f, of stack] by (simp add: gatherRecipeData_def)
  qed
  from fin 1 2 3 show ?thesis unfolding T' by blast
qed

text \<open>The example of section 8 of the specification.\<close>

lemma example_summary:
  "getSummary 1 example_cookbook (Some (JStr ''Bread''))
     = (Json_summary ''Bread'' 6 [(''Flour'', Num 3)], example_cookbook)"
  by code_simp

lemma reachable_constructor: "reachable constructor_cookbook"
proof -
  let ?i = "[(''type'', JStr ''ingredient''), (''name'', JStr ''constructor''), (''cookTime'', JNum 1)]"
  let ?r = "[(''type'', JStr ''recipe''), (''name'', JStr ''Pie''),
     (''requiredItems'', JArr [JObj [(''name'', JStr ''constructor''), (''quantity'', JNum 2)]])]"
  have 1: "snd (postEntry [] ?i) = [Ingredient ''constructor'' ''ingredient'' 1]" by code_simp
  have 2: "snd (postEntry [Ingredient ''constructor'' ''ingredient'' 1] ?r) = constructor_cookbook"
    by code_simp
  have "reachable [Ingredient ''constructor'' ''ingredient'' 1]"
    using reachable.posted [OF reachable.initial, of ?i] 1 by simp
  then show ?thesis
    using reachable.posted [of "[Ingredient ''constructor'' ''ingredient'' 1]" ?r] 2 by simp
qed

text \<open>
  C1, at an input where the code departs from it. The cookbook is reachable, its
  requirement graph is acyclic and every required name is stored, yet the quantity
  of the ingredient named \<^verbatim>\<open>constructor\<close> is not the number 2: the object
  \<^verbatim>\<open>aggregated\<close> inherits a property of that name, which is truthy, and \<^verbatim>\<open>+\<close>
  concatenates. An ingredient named \<^verbatim>\<open>__proto__\<close> is left out of the list
  altogether. Without such names the summary is what C1 says
  (\<open>getSummary_sums_paths\<close>), and on the example of the specification it is cook
  time 6 and three Flour (\<open>example_summary\<close>).
\<close>

theorem prototype_names_break_the_sum:
  "reachable constructor_cookbook
   \<and> fst (getSummary 1 constructor_cookbook (Some (JStr ''Pie'')))
       = Json_summary ''Pie'' 2 [(''constructor'', Str ''function Object() { [native code] }2'')]
   \<and> fst (getSummary 1 proto_cookbook (Some (JStr ''Pie''))) = Json_summary ''Pie'' 2 []"
proof -
  have "fst (getSummary 1 constructor_cookbook (Some (JStr ''Pie'')))
       = Json_summary ''Pie'' 2 [(''constructor'', Str ''function Object() { [native code] }2'')]"
    by code_simp
  moreover have "fst (getSummary 1 proto_cookbook (Some (JStr ''Pie''))) = Json_summary ''Pie'' 2 []"
    by code_simp
  ultimately show ?thesis using reachable_constructor by blast
qed

theorem prototype_names_break_the_sum_witness:
  "fst (getSummary 1 constructor_cookbook (Some (JStr ''Pie'')))
       \<noteq> Json_summary ''Pie'' 2 [(''constructor'', Num 2)]"
  using prototype_names_break_the_sum by simp

section \<open>Properties of \<^verbatim>\<open>parse_handwriting\<close>\<close>

lemma fields_not_Nil [simp]: "fields sep s \<noteq> []"
  by (induction s) auto

lemma split_not_Nil [simp]: "split s \<noteq> []"
  by (induction s) auto

lemma split_fields: "split s = fields (\<lambda>c. c = CHR '' '') s"
  by (induction s) auto

lemma letter_not_separator: "is_letter c \<Longrightarrow> \<not> is_separator c"
  by (auto simp: is_letter_def is_separator_def is_space_def)

lemma space_is_space [simp]: "is_space (CHR '' '')"
  by (simp add: is_space_def)

lemma letter_not_space: "is_letter c \<Longrightarrow> \<not> is_space c"
  by (auto simp: is_letter_def is_space_def)

text \<open>The two replacements of lines 53 and 56 cut the input where the contract does.\<close>

lemma fields_cleaned:
  "fields is_space (remove_others (replace_dashes s))
     = map (filter is_letter) (fields is_separator s)"
proof (induction s)
  case Nil
  then show ?case by (simp add: remove_others_def replace_dashes_def)
next
  case (Cons c cs)
  let ?g = "\<lambda>s. remove_others (replace_dashes s)"
  have g: "?g (c # cs) =
     (if c = CHR ''-'' \<or> c = CHR ''_'' then CHR '' '' # ?g cs
      else if is_letter c \<or> is_space c then c # ?g cs else ?g cs)"
    by (simp add: remove_others_def replace_dashes_def)
  show ?case
  proof (cases "is_separator c")
    case True
    then show ?thesis using Cons g by (auto simp: is_separator_def)
  next
    case False
    then have n: "c \<noteq> CHR ''-''" "c \<noteq> CHR ''_''" "\<not> is_space c"
      by (auto simp: is_separator_def)
    show ?thesis
    proof (cases "is_letter c")
      case True
      then show ?thesis using Cons False n g by (simp add: hd_map map_tl)
    next
      case False
      have "map (filter is_letter) (fields is_separator cs)
          = filter is_letter (hd (fields is_separator cs))
              # map (filter is_letter) (tl (fields is_separator cs))"
        by (cases "fields is_separator cs") simp_all
      then show ?thesis using Cons False n g \<open>\<not> is_separator c\<close> by simp
    qed
  qed
qed

lemma fields_snoc: "sep c \<Longrightarrow> fields sep (xs @ [c]) = fields sep xs @ [[]]"
  by (induction xs) auto

lemma words_dropWhile:
  "filter (\<lambda>w. w \<noteq> []) (fields sep (dropWhile sep t)) = filter (\<lambda>w. w \<noteq> []) (fields sep t)"
  by (induction t) auto

lemma words_drop_end:
  "filter (\<lambda>w. w \<noteq> []) (fields sep (rev (dropWhile sep (rev t))))
     = filter (\<lambda>w. w \<noteq> []) (fields sep t)"
  by (induction t rule: rev_induct) (auto simp: fields_snoc)

lemma words_trim:
  "filter (\<lambda>w. w \<noteq> []) (fields is_space (trim t)) = filter (\<lambda>w. w \<noteq> []) (fields is_space t)"
  by (simp add: trim_def words_drop_end words_dropWhile)

lemma hd_tl_filter:
  assumes "xs \<noteq> []" "ys \<noteq> []" "hd xs = hd ys"
    "filter P (tl xs) = filter P (tl ys)"
  shows "filter P xs = filter P ys"
  using assms by (cases xs; cases ys) auto

lemma split_squash:
  "hd (split (squash t)) = hd (fields is_space t)
   \<and> filter (\<lambda>w. w \<noteq> []) (tl (split (squash t)))
       = filter (\<lambda>w. w \<noteq> []) (tl (fields is_space t))"
proof (induction t rule: squash.induct)
  case 1
  then show ?case by simp
next
  case (2 c)
  have "c = CHR '' '' \<Longrightarrow> is_space c" by simp
  then show ?case by (cases "is_space c") auto
next
  case (3 c d cs)
  let ?X = "split (squash (d # cs))" and ?F = "fields is_space (d # cs)"
  show ?case
  proof (cases "is_space c")
    case False
    then have ne: "c \<noteq> CHR '' ''" by auto
    have l: "split (squash (c # d # cs)) = (c # hd ?X) # tl ?X"
      using False ne by simp
    have r: "fields is_space (c # d # cs) = (c # hd ?F) # tl ?F"
      using False by simp
    from 3(3) [OF False] show ?thesis unfolding l r by simp
  next
    case c: True
    have r: "fields is_space (c # d # cs) = [] # ?F" using c by simp
    show ?thesis
    proof (cases "is_space d")
      case True
      have l: "split (squash (c # d # cs)) = ?X" using c True by simp
      have f: "?F = [] # fields is_space cs" using True by simp
      from 3(1) [OF c True] show ?thesis unfolding l r unfolding f by simp
    next
      case False
      have l: "split (squash (c # d # cs)) = [] # ?X" using c False by simp
      from 3(2) [OF c False] have ih: "hd ?X = hd ?F"
        "filter (\<lambda>w. w \<noteq> []) (tl ?X) = filter (\<lambda>w. w \<noteq> []) (tl ?F)" by blast+
      have "filter (\<lambda>w. w \<noteq> []) ?X = filter (\<lambda>w. w \<noteq> []) ?F"
        by (rule hd_tl_filter [OF split_not_Nil fields_not_Nil ih])
      then show ?thesis unfolding l r by simp
    qed
  qed
qed

lemma words_squash:
  "filter (\<lambda>w. w \<noteq> []) (split (squash t)) = filter (\<lambda>w. w \<noteq> []) (fields is_space t)"
proof -
  from split_squash [of t] have ih: "hd (split (squash t)) = hd (fields is_space t)"
    "filter (\<lambda>w. w \<noteq> []) (tl (split (squash t)))
       = filter (\<lambda>w. w \<noteq> []) (tl (fields is_space t))" by blast+
  show ?thesis by (rule hd_tl_filter [OF split_not_Nil fields_not_Nil ih])
qed

lemma squash_Nil_iff: "squash t = [] \<longleftrightarrow> t = []"
  by (induction t rule: squash.induct) auto

lemma no_empty_field:
  "t \<noteq> [] \<Longrightarrow> \<not> is_space (last t) \<Longrightarrow>
     [] \<notin> set (tl (split (squash t))) \<and> (\<not> is_space (hd t) \<longrightarrow> hd (split (squash t)) \<noteq> [])"
proof (induction t rule: squash.induct)
  case 1
  then show ?case by simp
next
  case (2 c)
  then have "c \<noteq> CHR '' ''" using space_is_space by auto
  then show ?case using 2 by simp
next
  case (3 c d cs)
  let ?X = "split (squash (d # cs))"
  have last: "\<not> is_space (last (d # cs))" using 3(5) by simp
  show ?case
  proof (cases "is_space c")
    case False
    then have ne: "c \<noteq> CHR '' ''" by auto
    have l: "split (squash (c # d # cs)) = (c # hd ?X) # tl ?X" using False ne by simp
    from 3(3) [OF False _ last] show ?thesis unfolding l by simp
  next
    case c: True
    show ?thesis
    proof (cases "is_space d")
      case True
      have l: "split (squash (c # d # cs)) = ?X" using c True by simp
      from 3(1) [OF c True _ last] show ?thesis unfolding l using c by simp
    next
      case False
      have l: "split (squash (c # d # cs)) = [] # ?X" using c False by simp
      from 3(2) [OF c False _ last] False have "[] \<notin> set (tl ?X)" "hd ?X \<noteq> []" by simp_all
      then have "[] \<notin> set ?X" by (cases ?X) auto
      then show ?thesis unfolding l using c by simp
    qed
  qed
qed

lemma trim_last: "trim t \<noteq> [] \<Longrightarrow> \<not> is_space (last (trim t))"
  unfolding trim_def by (simp add: last_rev hd_dropWhile)

lemma trim_hd:
  assumes "trim t \<noteq> []"
  shows "\<not> is_space (hd (trim t))"
proof -
  let ?y = "dropWhile is_space t"
  have "rev (takeWhile is_space (rev ?y) @ dropWhile is_space (rev ?y)) = rev (rev ?y)"
    by (simp only: takeWhile_dropWhile_id)
  then have "rev (dropWhile is_space (rev ?y)) @ rev (takeWhile is_space (rev ?y)) = ?y"
    by (simp only: rev_append rev_rev_ident)
  then have y: "?y = trim t @ rev (takeWhile is_space (rev ?y))"
    by (simp only: trim_def)
  have "?y \<noteq> []"
  proof
    assume "?y = []"
    with y show False using assms by (simp only: Nil_is_append_conv split: if_splits) simp
  qed
  then have "\<not> is_space (hd ?y)" by (rule hd_dropWhile)
  moreover have "hd ?y = hd (trim t)" using y assms by (metis hd_append2)
  ultimately show ?thesis by simp
qed

lemma split_tidy:
  assumes "trim t \<noteq> []"
  shows "split (squash (trim t)) = filter (\<lambda>w. w \<noteq> []) (fields is_space t)"
proof -
  let ?X = "split (squash (trim t))"
  from no_empty_field [OF assms trim_last [OF assms]] trim_hd [OF assms]
  have "[] \<notin> set (tl ?X)" "hd ?X \<noteq> []" by simp_all
  then have "[] \<notin> set ?X" by (cases ?X) auto
  then have "filter (\<lambda>w. w \<noteq> []) ?X = ?X" by (auto simp: filter_id_conv)
  then show ?thesis using words_squash [of "trim t"] words_trim [of t] by simp
qed

lemma concat_fields: "concat (fields sep s) = filter (\<lambda>c. \<not> sep c) s"
proof (induction s)
  case Nil
  then show ?case by simp
next
  case (Cons c cs)
  have "concat (fields sep cs) = hd (fields sep cs) @ concat (tl (fields sep cs))"
    by (cases "fields sep cs") simp_all
  then show ?case using Cons by simp
qed

lemma words_of_Nil_iff: "words_of s = [] \<longleftrightarrow> \<not> (\<exists>c\<in>set s. is_letter c)"
proof -
  have "words_of s = [] \<longleftrightarrow> (\<forall>w\<in>set (fields is_separator s). filter is_letter w = [])"
    by (auto simp: words_of_def filter_empty_conv)
  also have "\<dots> \<longleftrightarrow> (\<forall>c\<in>set (concat (fields is_separator s)). \<not> is_letter c)"
    by (auto simp: filter_empty_conv)
  also have "\<dots> \<longleftrightarrow> \<not> (\<exists>c\<in>set s. is_letter c)"
    unfolding concat_fields using letter_not_separator by auto
  finally show ?thesis .
qed

lemma trim_Nil: "trim t = [] \<Longrightarrow> \<forall>c\<in>set t. is_space c"
proof -
  assume "trim t = []"
  then have "\<forall>c\<in>set (dropWhile is_space t). is_space c"
    by (simp add: trim_def dropWhile_eq_Nil_conv)
  then have "dropWhile is_space t = []"
    using hd_dropWhile [of is_space t] by (cases "dropWhile is_space t") auto
  then show ?thesis by (simp add: dropWhile_eq_Nil_conv)
qed

lemma words_of_cleaned:
  "words_of s = filter (\<lambda>w. w \<noteq> []) (fields is_space (remove_others (replace_dashes s)))"
  by (simp add: words_of_def fields_cleaned)

lemma join_capitalise_not_Nil:
  assumes "ws \<noteq> []" and "[] \<notin> set ws"
  shows "join (map capitalise ws) \<noteq> []"
proof -
  obtain w rest where ws: "ws = w # rest" using assms(1) by (cases ws) auto
  then have "capitalise w \<noteq> []" using assms(2) by (cases w) (auto simp: capitalise_def)
  then show ?thesis unfolding ws by (cases rest) auto
qed

lemma parse_handwriting_refines: "parse_handwriting s = normalizeName_spec s"
proof (cases "trim s = []")
  case True
  then have "words_of s = []"
    using trim_Nil letter_not_space by (auto simp: words_of_Nil_iff)
  then show ?thesis using True by (simp add: parse_handwriting_def normalizeName_spec_def)
next
  case False
  let ?g = "remove_others (replace_dashes s)"
  show ?thesis
  proof (cases "trim ?g = []")
    case True
    then have "words_of s = []"
      using words_trim [of ?g] by (simp add: words_of_cleaned)
    then show ?thesis using True False
      by (simp add: parse_handwriting_def normalizeName_spec_def)
  next
    case g: False
    have w: "split (squash (trim ?g)) = words_of s"
      using split_tidy [OF g] by (simp add: words_of_cleaned)
    have ne: "words_of s \<noteq> []" using w [symmetric] by simp
    have "[] \<notin> set (words_of s)" by (simp add: words_of_def)
    from join_capitalise_not_Nil [OF ne this]
    show ?thesis using False g w ne
      by (simp add: parse_handwriting_def normalizeName_spec_def squash_Nil_iff Let_def)
  qed
qed

text \<open>
  C5. \<^verbatim>\<open>parse_handwriting\<close> is a function of its input alone, and it computes what the
  contract says: the words between the separators \<^verbatim>\<open>-\<close>, \<^verbatim>\<open>_\<close> and white space,
  without the characters that are not letters (\<^verbatim>\<open>A-Za-z\<close>), each capitalised, joined by
  single spaces; null exactly when the input has no letter. The four examples of
  section 8 follow.
\<close>

theorem normalizeName_contract:
  "parse_handwriting raw = normalizeName_spec raw
   \<and> (parse_handwriting raw = None \<longleftrightarrow> \<not> (\<exists>c\<in>set raw. is_letter c))
   \<and> parse_handwriting ''-burger-_bun'' = Some ''Burger Bun''
   \<and> parse_handwriting ''   '' = None
   \<and> parse_handwriting ''!!!'' = None
   \<and> parse_handwriting ''hElLo  world'' = Some ''Hello World''"
proof -
  have "parse_handwriting raw = None \<longleftrightarrow> \<not> (\<exists>c\<in>set raw. is_letter c)"
    by (simp add: parse_handwriting_refines normalizeName_spec_def words_of_Nil_iff)
  moreover have "parse_handwriting ''-burger-_bun'' = Some ''Burger Bun''" by code_simp
  moreover have "parse_handwriting ''   '' = None" by code_simp
  moreover have "parse_handwriting ''!!!'' = None" by code_simp
  moreover have "parse_handwriting ''hElLo  world'' = Some ''Hello World''" by code_simp
  ultimately show ?thesis using parse_handwriting_refines by blast
qed

theorem normalizeName_contract_witness:
  "parse_handwriting ''  a1b--c_ d!  '' = Some ''Ab C D''
   \<and> normalizeName_spec ''  a1b--c_ d!  '' = Some ''Ab C D''"
proof -
  have "normalizeName_spec ''  a1b--c_ d!  '' = Some ''Ab C D''" by code_simp
  with normalizeName_contract [of "''  a1b--c_ d!  ''"] show ?thesis by simp
qed

section \<open>How failures are reported\<close>

text \<open>
  The handler of \<^verbatim>\<open>POST /entry\<close> throws exactly on the requests that reach line 122
  with a \<^verbatim>\<open>null\<close> among the required items; every other request it answers itself,
  with 200 or with 400.
\<close>

lemma postEntry_throws_iff:
  "fst (postEntry c entry) = Uncaught TypeError \<longleftrightarrow> reads_null_item c entry"
  unfolding postEntry_def reads_null_item_def
  by (auto split: option.splits json.splits)


lemma no_null_not_read:
  "\<forall>items. map_of entry ''requiredItems'' = Some (JArr items) \<longrightarrow> JNull \<notin> set items
     \<Longrightarrow> \<not> reads_null_item c entry"
  unfolding reads_null_item_def
  by (auto simp: list_ex_iff split: option.splits json.splits)




end
